theory Spec2Isabelle
  imports Main "HOL-Library.Sublist" "HOL-Library.AList"
begin

section \<open>Text primitives\<close>

text \<open>
  Manifest and script texts are Python \<open>str\<close> values, modelled as \<open>string\<close>
  (a list of \<open>char\<close>, each a code point below 256). All patterns the adapters
  search for are ASCII.
\<close>

text \<open>Python's \<^verbatim>\<open>sub in s\<close> on strings.\<close>

fun str_in :: "string \<Rightarrow> string \<Rightarrow> bool" where
  "str_in sub [] = (sub = [])"
| "str_in sub (c # cs) = (prefix sub (c # cs) \<or> str_in sub cs)"

text \<open>
  The number of positions of \<open>s\<close> at which \<open>sub\<close> starts. It is used to state
  how often a heading occurs in a manifest.
\<close>

fun occurrences :: "string \<Rightarrow> string \<Rightarrow> nat" where
  "occurrences sub [] = 0"
| "occurrences sub (c # cs) = (if prefix sub (c # cs) then 1 else 0) + occurrences sub cs"

text \<open>
  Python's \<^verbatim>\<open>s.replace(old, new)\<close>: the text is scanned from the left, every
  occurrence found is replaced, and the scan resumes behind the replaced occurrence
  (occurrences do not overlap). For the empty pattern Python puts \<open>new\<close> before
  every character and at the end.
\<close>

fun str_replace :: "string \<Rightarrow> string \<Rightarrow> string \<Rightarrow> string" where
  "str_replace [] new s = new @ concat (map (\<lambda>c. c # new) s)"
| "str_replace (a # old) new [] = []"
| "str_replace (a # old) new (c # cs) =
     (if prefix (a # old) (c # cs)
      then new @ str_replace (a # old) new (drop (length (a # old)) (c # cs))
      else c # str_replace (a # old) new cs)"

text \<open>
  The class \<^verbatim>\<open>\w\<close> of Python's \<^verbatim>\<open>re\<close> for \<open>str\<close> patterns is
  Unicode-aware: a character is in it when it is alphanumeric or the underscore. A
  \<open>char\<close> stands for a code point below 256, and on these the class is: the ASCII
  digits and letters, the underscore, and the Latin-1 letters and numeric characters
  (\<open>0xAA\<close>, \<open>0xB2\<close>, \<open>0xB3\<close>, \<open>0xB5\<close>, \<open>0xB9\<close>, \<open>0xBA\<close>,
  \<open>0xBC\<close> to \<open>0xBE\<close>, \<open>0xC0\<close> to \<open>0xFF\<close> without \<open>0xD7\<close> and \<open>0xF7\<close>).
\<close>

definition is_word_char :: "char \<Rightarrow> bool" where
  "is_word_char c =
     (let n = (of_char c :: nat)
      in (48 \<le> n \<and> n \<le> 57) \<or> (65 \<le> n \<and> n \<le> 90) \<or> n = 95 \<or> (97 \<le> n \<and> n \<le> 122)
         \<or> n = 170 \<or> n = 178 \<or> n = 179 \<or> n = 181 \<or> n = 185 \<or> n = 186
         \<or> (188 \<le> n \<and> n \<le> 190) \<or> (192 \<le> n \<and> n \<le> 214)
         \<or> (216 \<le> n \<and> n \<le> 246) \<or> 248 \<le> n)"

text \<open>
  \<^verbatim>\<open>re.sub(lit + r'(\w+)', tmpl + r'\1', s)\<close> for a literal \<open>lit\<close>: at each
  position the pattern matches when \<open>lit\<close> is followed by at least one word
  character; \<^verbatim>\<open>\w+\<close> is greedy and takes the whole run, which the template
  copies behind \<open>tmpl\<close>. The scan resumes behind the match.
\<close>

function re_sub_word :: "string \<Rightarrow> string \<Rightarrow> string \<Rightarrow> string" where
  "re_sub_word lit tmpl [] = []"
| "re_sub_word lit tmpl (c # cs) =
     (if prefix lit (c # cs) \<and> takeWhile is_word_char (drop (length lit) (c # cs)) \<noteq> []
      then tmpl @ takeWhile is_word_char (drop (length lit) (c # cs))
             @ re_sub_word lit tmpl (dropWhile is_word_char (drop (length lit) (c # cs)))
      else c # re_sub_word lit tmpl cs)"
  by pat_completeness auto
termination
proof (relation "measure (\<lambda>(lit, tmpl, s). length s)")
  fix lit tmpl :: string and c :: char and cs :: string
  assume "prefix lit (c # cs) \<and> takeWhile is_word_char (drop (length lit) (c # cs)) \<noteq> []"
  then have "takeWhile is_word_char (drop (length lit) (c # cs)) \<noteq> []"
    by simp
  then have "length (dropWhile is_word_char (drop (length lit) (c # cs)))
      < length (drop (length lit) (c # cs))"
    by (metis append_Nil length_dropWhile_le nat_less_le takeWhile_dropWhile_id
        length_append add_cancel_right_left length_0_conv)
  also have "\<dots> \<le> length (c # cs)"
    by simp
  finally show "((lit, tmpl, dropWhile is_word_char (drop (length lit) (c # cs))), (lit, tmpl, c # cs))
      \<in> measure (\<lambda>(lit, tmpl, s). length s)"
    by simp
qed simp_all

section \<open>Data model\<close>

text \<open>The three target CLIs of the registry \<^verbatim>\<open>ADAPTERS\<close>.\<close>

datatype cli = OpenCode | Codex | Gemini

fun cli_name :: "cli \<Rightarrow> string" where
  "cli_name OpenCode = ''opencode''"
| "cli_name Codex = ''codex''"
| "cli_name Gemini = ''gemini''"

text \<open>
  A value of the scripts mapping is either a \<open>str\<close> or something else (file bytes);
  the adapters tell them apart with \<^verbatim>\<open>isinstance(content, str)\<close>.
\<close>

datatype file_content = Str string | Bytes "char list"

text \<open>
  A Python \<open>dict\<close> from relative path to content is an association list in insertion
  order; \<^verbatim>\<open>d[k] = v\<close> is \<^const>\<open>AList.update\<close>, which overwrites the value of an
  existing key in place and appends a new key.
\<close>

type_synonym 'v dict = "(string \<times> 'v) list"

text \<open>
  \<^verbatim>\<open>SkillOutput\<close> is declared in \<^verbatim>\<open>base.py\<close>, which is not among the sources;
  the adapters use its \<open>scripts\<close> mapping, and the manifest text is the other part.
\<close>

record skill_output =
  skill_md :: string
  scripts :: "file_content dict"

text \<open>
  The only failure the adapters can pass on is one raised by the call
  \<^verbatim>\<open>super().transform_skill(source_dir)\<close>.
\<close>

datatype error = MissingManifest | BaseFailure string

text \<open>
  The shared-modules root \<open>self.shared_dir\<close> as the adapters read it: for each of
  the two known subdirectories, \<open>None\<close> when it does not exist, else the files a
  recursive walk finds below it, each with its path relative to the shared root and its
  text. Files are taken to be readable UTF-8 text, and names matching a pattern to be
  regular files.
\<close>

record shared_root =
  lsp_engine :: "string dict option"
  code_analyzer :: "string dict option"

text \<open>
  A filesystem path is its list of components; \<open>p / name\<close> appends a component.
  The existence state of the filesystem is a predicate on paths.
\<close>

type_synonym path = "string list"

section \<open>Install path\<close>

definition opencode_default_install_path :: "path \<Rightarrow> (path \<Rightarrow> bool) \<Rightarrow> path" where
  "opencode_default_install_path cwd exists =
     (let opencode_path = cwd @ [''.opencode''] @ [''skill''];
          claude_path = cwd @ [''.claude''] @ [''skills'']
      in if exists claude_path then claude_path else opencode_path)"

definition codex_default_install_path :: "path \<Rightarrow> path" where
  "codex_default_install_path cwd = cwd @ [''.codex''] @ [''skills'']"

definition gemini_default_install_path :: "path \<Rightarrow> path" where
  "gemini_default_install_path home = home @ [''.gemini''] @ [''skills'']"

section \<open>Manifest transformation\<close>

fun usage_heading :: "cli \<Rightarrow> string" where
  "usage_heading OpenCode = ''## OpenCode CLI Usage''"
| "usage_heading Codex = ''## Codex CLI Usage''"
| "usage_heading Gemini = ''## Gemini CLI Usage''"

text \<open>The f-strings of the three adapters, line by line.\<close>

definition opencode_section :: "string \<Rightarrow> string" where
  "opencode_section skill_name =
     ''\<newline>'' @
     ''\<newline>'' @
     ''---\<newline>'' @
     ''\<newline>'' @
     ''## OpenCode CLI Usage\<newline>'' @
     ''\<newline>'' @
     ''This skill is compatible with OpenCode CLI. To use:\<newline>'' @
     ''\<newline>'' @
     ''```bash\<newline>'' @
     ''# The skill is automatically loaded when placed in .opencode/skill/'' @
     skill_name @
     ''/\<newline>'' @
     ''# OpenCode will discover it and make it available in conversations.\<newline>'' @
     ''\<newline>'' @
     ''# To manually invoke validation scripts:\<newline>'' @
     ''cd .opencode/skill/'' @
     skill_name @
     ''/scripts\<newline>'' @
     ''python validate_*.py path/to/your/file\<newline>'' @
     ''```\<newline>'' @
     ''\<newline>'' @
     ''### Validation Scripts\<newline>'' @
     ''\<newline>'' @
     ''The `scripts/` directory contains Python validation scripts that can be run\<newline>'' @
     ''manually after editing files. In Claude Code, these run automatically via\<newline>'' @
     ''PostToolUse hooks.\<newline>'' @
     ''\<newline>'' @
     ''See `scripts/README.md` for detailed usage instructions.\<newline>''"

definition codex_section :: "string \<Rightarrow> string" where
  "codex_section skill_name =
     ''\<newline>'' @
     ''\<newline>'' @
     ''---\<newline>'' @
     ''\<newline>'' @
     ''## Codex CLI Usage\<newline>'' @
     ''\<newline>'' @
     ''This skill is compatible with OpenAI Codex CLI. To use:\<newline>'' @
     ''\<newline>'' @
     ''```bash\<newline>'' @
     ''# Enable skills in Codex\<newline>'' @
     ''codex --enable skills\<newline>'' @
     ''\<newline>'' @
     ''# The skill is automatically loaded from .codex/skills/'' @
     skill_name @
     ''/\<newline>'' @
     ''\<newline>'' @
     ''# To run validation scripts manually:\<newline>'' @
     ''cd .codex/skills/'' @
     skill_name @
     ''/scripts\<newline>'' @
     ''python validate_*.py path/to/your/file\<newline>'' @
     ''```\<newline>'' @
     ''\<newline>'' @
     ''### Directory Structure\<newline>'' @
     ''\<newline>'' @
     ''Codex CLI uses slightly different directory names:\<newline>'' @
     ''- `assets/` - Code templates (called `templates/` in Claude Code)\<newline>'' @
     ''- `references/` - Documentation (called `docs/` in Claude Code)\<newline>'' @
     ''- `scripts/` - Validation scripts\<newline>'' @
     ''\<newline>'' @
     ''See `scripts/README.md` for validation script usage.\<newline>''"

definition gemini_section :: "string \<Rightarrow> string" where
  "gemini_section skill_name =
     ''\<newline>'' @
     ''\<newline>'' @
     ''---\<newline>'' @
     ''\<newline>'' @
     ''## Gemini CLI Usage\<newline>'' @
     ''\<newline>'' @
     ''This skill is compatible with Google Gemini CLI. To use:\<newline>'' @
     ''\<newline>'' @
     ''```bash\<newline>'' @
     ''# Skills are installed to ~/.gemini/skills/'' @
     skill_name @
     ''/\<newline>'' @
     ''# Gemini CLI automatically discovers and loads them.\<newline>'' @
     ''\<newline>'' @
     ''# Restart Gemini CLI to load new skills\<newline>'' @
     ''gemini\<newline>'' @
     ''\<newline>'' @
     ''# To run validation scripts manually:\<newline>'' @
     ''cd ~/.gemini/skills/'' @
     skill_name @
     ''/scripts\<newline>'' @
     ''python validate_*.py path/to/your/file\<newline>'' @
     ''```\<newline>'' @
     ''\<newline>'' @
     ''### Features\<newline>'' @
     ''\<newline>'' @
     ''Gemini CLI with this skill provides:\<newline>'' @
     ''- Automatic skill discovery from ~/.gemini/skills/\<newline>'' @
     ''- 1M+ token context window (Gemini 2.5 Pro)\<newline>'' @
     ''- Built-in Google Search grounding\<newline>'' @
     ''- MCP extensibility\<newline>'' @
     ''\<newline>'' @
     ''### Shared Skills\<newline>'' @
     ''\<newline>'' @
     ''You can share skills between Gemini CLI and Claude Code by symlinking:\<newline>'' @
     ''\<newline>'' @
     ''```bash\<newline>'' @
     ''ln -s ~/.gemini/skills/'' @
     skill_name @
     '' ~/.claude/skills/'' @
     skill_name @
     ''\<newline>'' @
     ''```\<newline>'' @
     ''\<newline>'' @
     ''See `scripts/README.md` for validation script usage.\<newline>''"

text \<open>
  \<^verbatim>\<open>_common_skill_md_transforms\<close> is defined in \<^verbatim>\<open>base.py\<close>, which is not among
  the sources. Every \<open>transform_skill_md\<close> takes it as the parameter \<open>common\<close>.
\<close>

definition opencode_transform_skill_md ::
    "(string \<Rightarrow> string) \<Rightarrow> string \<Rightarrow> string \<Rightarrow> string" where
  "opencode_transform_skill_md common content skill_name =
     (let content = common content
      in if \<not> str_in ''## OpenCode CLI Usage'' content
         then content @ opencode_section skill_name
         else content)"

text \<open>The four replacements of the Codex adapter, in the order of the source.\<close>

definition codex_dir_renames :: "string \<Rightarrow> string" where
  "codex_dir_renames content =
     (let content = str_replace ''templates/'' ''assets/'' content;
          content = str_replace ''docs/'' ''references/'' content;
          content = str_replace ''`templates`'' ''`assets`'' content;
          content = str_replace ''`docs`'' ''`references`'' content
      in content)"

definition codex_transform_skill_md ::
    "(string \<Rightarrow> string) \<Rightarrow> string \<Rightarrow> string \<Rightarrow> string" where
  "codex_transform_skill_md common content skill_name =
     (let content = common content;
          content = codex_dir_renames content
      in if \<not> str_in ''## Codex CLI Usage'' content
         then content @ codex_section skill_name
         else content)"

definition gemini_transform_skill_md ::
    "(string \<Rightarrow> string) \<Rightarrow> string \<Rightarrow> string \<Rightarrow> string" where
  "gemini_transform_skill_md common content skill_name =
     (let content = common content
      in if \<not> str_in ''## Gemini CLI Usage'' content
         then content @ gemini_section skill_name
         else content)"

fun transform_skill_md ::
    "cli \<Rightarrow> (string \<Rightarrow> string) \<Rightarrow> string \<Rightarrow> string \<Rightarrow> string" where
  "transform_skill_md OpenCode = opencode_transform_skill_md"
| "transform_skill_md Codex = codex_transform_skill_md"
| "transform_skill_md Gemini = gemini_transform_skill_md"

section \<open>Bundling\<close>

text \<open>
  \<^verbatim>\<open>_needs_shared_modules\<close> is the same loop in the three adapters: the values
  are visited in order, a value that is not a \<open>str\<close> is skipped, and the first
  text with one of the four markers ends the loop with \<open>True\<close>.
\<close>

fun needs_shared_modules :: "file_content dict \<Rightarrow> bool" where
  "needs_shared_modules [] = False"
| "needs_shared_modules ((k, Str content) # rest) =
     (if str_in ''from shared'' content \<or> str_in ''import shared'' content then True
      else if str_in ''lsp_client'' content \<or> str_in ''code_analyzer'' content then True
      else needs_shared_modules rest)"
| "needs_shared_modules ((k, Bytes b) # rest) = needs_shared_modules rest"

text \<open>\<^verbatim>\<open>OpenCodeAdapter._rewrite_shared_imports\<close>: two substitutions in sequence.\<close>

definition rewrite_shared_imports :: "string \<Rightarrow> string" where
  "rewrite_shared_imports content =
     (let content = re_sub_word ''from shared.'' ''from .shared.'' content;
          content = re_sub_word ''import shared.'' ''from . import shared.'' content
      in content)"

text \<open>\<^verbatim>\<open>dir.rglob("*" + ext)\<close> on the files of a subdirectory.\<close>

definition rglob :: "string \<Rightarrow> string dict \<Rightarrow> string dict" where
  "rglob ext files = filter (\<lambda>(rel_path, text). suffix ext rel_path) files"

text \<open>
  One \<^verbatim>\<open>for file_path in dir.rglob(...)\<close> loop: each file is stored in
  \<open>modules\<close> under its path relative to the shared root, its text passed through
  \<open>rewrite\<close>.
\<close>

definition stage_files ::
    "(string \<Rightarrow> string) \<Rightarrow> string dict \<Rightarrow> string dict \<Rightarrow> string dict" where
  "stage_files rewrite files modules =
     fold (\<lambda>(rel_path, text) modules. AList.update rel_path (rewrite text) modules) files modules"

text \<open>
  The body shared by the three \<^verbatim>\<open>_bundle_shared_modules\<close>: they differ only
  in what is done to the text of a \<^verbatim>\<open>.py\<close> file.
\<close>

definition collect_shared_modules :: "(string \<Rightarrow> string) \<Rightarrow> shared_root \<Rightarrow> string dict" where
  "collect_shared_modules rewrite_py shared_dir =
     (let modules = [];
          modules = (case lsp_engine shared_dir of
                       None \<Rightarrow> modules
                     | Some lsp_dir \<Rightarrow> stage_files rewrite_py (rglob ''.py'' lsp_dir) modules);
          modules = (case code_analyzer shared_dir of
                       None \<Rightarrow> modules
                     | Some analyzer_dir \<Rightarrow>
                         (let modules = stage_files rewrite_py (rglob ''.py'' analyzer_dir) modules;
                              modules = stage_files (\<lambda>text. text) (rglob ''.yml'' analyzer_dir) modules;
                              modules = stage_files (\<lambda>text. text) (rglob ''.xml'' analyzer_dir) modules
                          in modules))
      in modules)"

definition opencode_bundle_shared_modules :: "shared_root \<Rightarrow> string dict" where
  "opencode_bundle_shared_modules shared_dir =
     collect_shared_modules rewrite_shared_imports shared_dir"

definition codex_bundle_shared_modules :: "shared_root \<Rightarrow> string dict" where
  "codex_bundle_shared_modules shared_dir = collect_shared_modules (\<lambda>content. content) shared_dir"

definition gemini_bundle_shared_modules :: "shared_root \<Rightarrow> string dict" where
  "gemini_bundle_shared_modules shared_dir = collect_shared_modules (\<lambda>content. content) shared_dir"

fun bundle_shared_modules :: "cli \<Rightarrow> shared_root \<Rightarrow> string dict" where
  "bundle_shared_modules OpenCode = opencode_bundle_shared_modules"
| "bundle_shared_modules Codex = codex_bundle_shared_modules"
| "bundle_shared_modules Gemini = gemini_bundle_shared_modules"

text \<open>
  \<^verbatim>\<open>transform_skill\<close> is the same in the three adapters. \<open>base\<close> is the outcome
  of \<^verbatim>\<open>super().transform_skill(source_dir)\<close>: an exception raised there leaves the
  method at once, otherwise the bundled modules are written into the scripts mapping.
\<close>

definition merge_shared :: "string dict \<Rightarrow> file_content dict \<Rightarrow> file_content dict" where
  "merge_shared shared_modules out_scripts =
     fold (\<lambda>(path, content) out_scripts.
             AList.update (''shared/'' @ path) (Str content) out_scripts)
          shared_modules out_scripts"

definition transform_skill ::
    "cli \<Rightarrow> shared_root \<Rightarrow> error + skill_output \<Rightarrow> error + skill_output" where
  "transform_skill a shared_dir base =
     (case base of
        Inl e \<Rightarrow> Inl e
      | Inr output \<Rightarrow>
          if needs_shared_modules (scripts output)
          then Inr (output\<lparr>scripts := merge_shared (bundle_shared_modules a shared_dir) (scripts output)\<rparr>)
          else Inr output)"

section \<open>Install path of the OpenCode adapter\<close>

text \<open>
  Claim C6. Where \<open>cwd/.claude/skills\<close> exists and \<open>cwd/.opencode/skill\<close> does
  not, \<open>default_install_path\<close> of the OpenCode adapter is \<open>cwd/.claude/skills\<close>;
  where \<open>cwd/.claude/skills\<close> does not exist, it is \<open>cwd/.opencode/skill\<close>.
\<close>

theorem opencode_install_path_precedence:
  "(exists (cwd @ [''.claude'', ''skills'']) \<and> \<not> exists (cwd @ [''.opencode'', ''skill''])
      \<longrightarrow> opencode_default_install_path cwd exists = cwd @ [''.claude'', ''skills''])
   \<and> (\<not> exists (cwd @ [''.claude'', ''skills''])
      \<longrightarrow> opencode_default_install_path cwd exists = cwd @ [''.opencode'', ''skill''])"
  by (simp add: opencode_default_install_path_def)

theorem opencode_install_path_precedence_witness:
  "opencode_default_install_path [''proj''] (\<lambda>p. p = [''proj'', ''.claude'', ''skills''])
     = [''proj'', ''.claude'', ''skills'']
   \<and> opencode_default_install_path [''proj''] (\<lambda>p. False) = [''proj'', ''.opencode'', ''skill'']"
  using opencode_install_path_precedence [of "\<lambda>p. p = [''proj'', ''.claude'', ''skills'']" "[''proj'']"]
    opencode_install_path_precedence [of "\<lambda>p. False" "[''proj'']"]
  by simp

text \<open>
  Claim C9. Two existence states that agree on \<open>cwd/.claude/skills\<close> give the same
  \<open>default_install_path\<close>, whatever they say about \<open>cwd/.opencode/skill\<close>.
\<close>

theorem opencode_install_path_ignores_own_dir:
  "exists1 (cwd @ [''.claude'', ''skills'']) = exists2 (cwd @ [''.claude'', ''skills''])
   \<Longrightarrow> opencode_default_install_path cwd exists1 = opencode_default_install_path cwd exists2"
  by (simp add: opencode_default_install_path_def)

theorem opencode_install_path_ignores_own_dir_witness:
  "opencode_default_install_path [''proj''] (\<lambda>p. True)
     = opencode_default_install_path [''proj''] (\<lambda>p. p \<noteq> [''proj'', ''.opencode'', ''skill''])"
  using opencode_install_path_ignores_own_dir
    [of "\<lambda>p. True" "[''proj'']" "\<lambda>p. p \<noteq> [''proj'', ''.opencode'', ''skill'']"]
  by simp

section \<open>Detection of shared-module use\<close>

lemma needs_shared_modules_Cons:
  "needs_shared_modules ((k, v) # rest) \<longleftrightarrow>
     (\<exists>content. v = Str content \<and>
        (str_in ''from shared'' content \<or> str_in ''import shared'' content \<or>
         str_in ''lsp_client'' content \<or> str_in ''code_analyzer'' content))
     \<or> needs_shared_modules rest"
  by (cases v) auto

lemma needs_shared_modules_markers:
  "needs_shared_modules entries \<longleftrightarrow>
     (\<exists>(k, v) \<in> set entries. \<exists>content. v = Str content \<and>
        (str_in ''from shared'' content \<or> str_in ''import shared'' content \<or>
         str_in ''lsp_client'' content \<or> str_in ''code_analyzer'' content))"
proof (induction entries)
  case Nil
  show ?case by simp
next
  case (Cons e entries)
  obtain k v where e: "e = (k, v)" by (cases e)
  show ?case
    unfolding e needs_shared_modules_Cons Cons.IH by auto
qed

lemma needs_shared_modules_skip_bytes:
  "needs_shared_modules (before @ (k', Bytes b) # after) = needs_shared_modules (before @ after)"
proof (induction before)
  case Nil
  show ?case by simp
next
  case (Cons e before)
  obtain k v where e: "e = (k, v)" by (cases e)
  show ?case
    unfolding e append_Cons needs_shared_modules_Cons Cons.IH ..
qed

text \<open>
  Claim C10. \<open>_needs_shared_modules\<close> is true exactly when some \<open>str\<close> value of
  the mapping contains one of the four markers; a value that is not a \<open>str\<close> can
  be dropped from the mapping without changing the answer, whatever bytes it holds.
\<close>

theorem needs_shared_modules_iff:
  "(needs_shared_modules entries \<longleftrightarrow>
     (\<exists>(k, v) \<in> set entries. \<exists>content. v = Str content \<and>
        (str_in ''from shared'' content \<or> str_in ''import shared'' content \<or>
         str_in ''lsp_client'' content \<or> str_in ''code_analyzer'' content)))
   \<and> needs_shared_modules (before @ (k', Bytes b) # after) = needs_shared_modules (before @ after)"
  using needs_shared_modules_markers [of entries] needs_shared_modules_skip_bytes [of before k' b after]
  by (rule conjI)

theorem needs_shared_modules_iff_witness:
  "needs_shared_modules [(''a.bin'', Bytes ''import shared''), (''b.py'', Str ''import lsp_client'')]
   \<and> \<not> needs_shared_modules [(''a.bin'', Bytes ''import shared'')]"
  using needs_shared_modules_iff
    [of "[(''a.bin'', Bytes ''import shared''), (''b.py'', Str ''import lsp_client'')]" "[]" "''a.bin''" "''import shared''" "[]"]
    needs_shared_modules_iff
    [of "[(''a.bin'', Bytes ''import shared'')]" "[]" "''a.bin''" "''import shared''" "[]"]
  by simp

section \<open>The usage section\<close>

lemma str_in_sublist: "str_in sub s \<longleftrightarrow> sublist sub s"
  by (induction s) (auto simp: sublist_Cons_right)

lemma str_in_appendI: "str_in sub s \<Longrightarrow> str_in sub (s @ t)"
  unfolding str_in_sublist by (rule sublist_order.order_trans [OF _ sublist_append_rightI])

lemma opencode_section_heading: "str_in ''## OpenCode CLI Usage'' (opencode_section n)"
  by (simp add: opencode_section_def)

lemma codex_section_heading: "str_in ''## Codex CLI Usage'' (codex_section n)"
  by (simp add: codex_section_def)

lemma gemini_section_heading: "str_in ''## Gemini CLI Usage'' (gemini_section n)"
  by (simp add: gemini_section_def)

lemma str_in_append_rightI: "str_in sub t \<Longrightarrow> str_in sub (s @ t)"
  unfolding str_in_sublist by (rule sublist_order.order_trans [OF _ sublist_append_leftI])

lemma str_in_nonempty: "str_in sub s \<Longrightarrow> sub \<noteq> [] \<Longrightarrow> s \<noteq> []"
  by (cases s) auto

lemma transform_skill_md_heading:
  "str_in (usage_heading a) (transform_skill_md a common content skill_name)"
proof (cases a)
  case OpenCode
  then show ?thesis
    by (simp add: opencode_transform_skill_md_def Let_def str_in_append_rightI
        opencode_section_heading del: str_in.simps)
next
  case Codex
  then show ?thesis
    by (simp add: codex_transform_skill_md_def Let_def str_in_append_rightI
        codex_section_heading del: str_in.simps)
next
  case Gemini
  then show ?thesis
    by (simp add: gemini_transform_skill_md_def Let_def str_in_append_rightI
        gemini_section_heading del: str_in.simps)
qed

text \<open>
  Claim C8. For each adapter and every manifest text, the empty one included, the
  result of \<open>transform_skill_md\<close> contains the adapter's usage heading, so it is
  never empty. This holds whatever the common transform does.
\<close>

theorem usage_heading_present:
  "str_in (usage_heading a) (transform_skill_md a common content skill_name)
   \<and> transform_skill_md a common content skill_name \<noteq> []
   \<and> transform_skill_md a common [] skill_name \<noteq> []"
proof -
  have ne: "usage_heading a \<noteq> []"
    by (cases a) simp_all
  show ?thesis
    using str_in_nonempty [OF transform_skill_md_heading ne] transform_skill_md_heading
    by blast
qed

section \<open>Bundling of shared modules\<close>

lemma stage_files_keys:
  "fst ` set (stage_files rewrite files modules) = fst ` set files \<union> fst ` set modules"
  unfolding stage_files_def
proof (induction files arbitrary: modules)
  case Nil
  show ?case by simp
next
  case (Cons f files)
  obtain p t where f: "f = (p, t)" by (cases f)
  show ?case
    by (simp add: f Cons.IH dom_update)
qed

lemma stage_files_distinct:
  "distinct (map fst modules) \<Longrightarrow> distinct (map fst (stage_files rewrite files modules))"
  unfolding stage_files_def
proof (induction files arbitrary: modules)
  case Nil
  then show ?case by simp
next
  case (Cons f files)
  obtain p t where f: "f = (p, t)" by (cases f)
  show ?case
    using Cons.prems by (simp add: f Cons.IH distinct_update)
qed

lemma collect_shared_modules_distinct:
  "distinct (map fst (collect_shared_modules rewrite_py shared_dir))"
  by (simp add: collect_shared_modules_def Let_def stage_files_distinct split: option.split)

lemma bundle_shared_modules_distinct: "distinct (map fst (bundle_shared_modules a shared_dir))"
  by (cases a)
    (simp_all add: opencode_bundle_shared_modules_def codex_bundle_shared_modules_def
      gemini_bundle_shared_modules_def collect_shared_modules_distinct)

lemma rglob_keys: "fst ` set (rglob ext files) = {p \<in> fst ` set files. suffix ext p}"
  by (force simp: rglob_def)

lemma collect_shared_modules_keys:
  "fst ` set (collect_shared_modules rewrite_py shared_dir) =
     (case lsp_engine shared_dir of None \<Rightarrow> {}
      | Some lsp_dir \<Rightarrow> {p \<in> fst ` set lsp_dir. suffix ''.py'' p})
     \<union> (case code_analyzer shared_dir of None \<Rightarrow> {}
      | Some analyzer_dir \<Rightarrow>
          {p \<in> fst ` set analyzer_dir. suffix ''.py'' p \<or> suffix ''.yml'' p \<or> suffix ''.xml'' p})"
  by (auto simp: collect_shared_modules_def Let_def stage_files_keys rglob_keys
      split: option.split)

lemma bundle_shared_modules_keys:
  "fst ` set (bundle_shared_modules a shared_dir) =
     (case lsp_engine shared_dir of None \<Rightarrow> {}
      | Some lsp_dir \<Rightarrow> {p \<in> fst ` set lsp_dir. suffix ''.py'' p})
     \<union> (case code_analyzer shared_dir of None \<Rightarrow> {}
      | Some analyzer_dir \<Rightarrow>
          {p \<in> fst ` set analyzer_dir. suffix ''.py'' p \<or> suffix ''.yml'' p \<or> suffix ''.xml'' p})"
  by (cases a)
    (simp_all only: bundle_shared_modules.simps opencode_bundle_shared_modules_def
      codex_bundle_shared_modules_def gemini_bundle_shared_modules_def
      collect_shared_modules_keys)

lemma bundle_shared_modules_absent_as_empty:
  "bundle_shared_modules a (shared_dir\<lparr>lsp_engine := None\<rparr>)
     = bundle_shared_modules a (shared_dir\<lparr>lsp_engine := Some []\<rparr>)"
  "bundle_shared_modules a (shared_dir\<lparr>code_analyzer := None\<rparr>)
     = bundle_shared_modules a (shared_dir\<lparr>code_analyzer := Some []\<rparr>)"
  by (cases a;
      simp add: opencode_bundle_shared_modules_def codex_bundle_shared_modules_def
        gemini_bundle_shared_modules_def collect_shared_modules_def stage_files_def rglob_def)+

text \<open>
  Claim C5. A missing subdirectory is no error and contributes nothing: with neither
  subdirectory the bundle is the empty mapping; with one of them missing, the bundle
  holds exactly the matching files of the other; and a missing subdirectory gives the
  same bundle as an existing one without files.
\<close>

theorem bundle_missing_subtree:
  "bundle_shared_modules a \<lparr>lsp_engine = None, code_analyzer = None\<rparr> = []
   \<and> fst ` set (bundle_shared_modules a \<lparr>lsp_engine = None, code_analyzer = Some analyzer_dir\<rparr>)
       = {p \<in> fst ` set analyzer_dir. suffix ''.py'' p \<or> suffix ''.yml'' p \<or> suffix ''.xml'' p}
   \<and> fst ` set (bundle_shared_modules a \<lparr>lsp_engine = Some lsp_dir, code_analyzer = None\<rparr>)
       = {p \<in> fst ` set lsp_dir. suffix ''.py'' p}
   \<and> bundle_shared_modules a \<lparr>lsp_engine = None, code_analyzer = other\<rparr>
       = bundle_shared_modules a \<lparr>lsp_engine = Some [], code_analyzer = other\<rparr>
   \<and> bundle_shared_modules a \<lparr>lsp_engine = other, code_analyzer = None\<rparr>
       = bundle_shared_modules a \<lparr>lsp_engine = other, code_analyzer = Some []\<rparr>"
proof -
  have none: "bundle_shared_modules a \<lparr>lsp_engine = None, code_analyzer = None\<rparr> = []"
    by (cases a)
      (simp_all add: opencode_bundle_shared_modules_def codex_bundle_shared_modules_def
        gemini_bundle_shared_modules_def collect_shared_modules_def)
  have lsp: "bundle_shared_modules a \<lparr>lsp_engine = None, code_analyzer = other\<rparr>
       = bundle_shared_modules a \<lparr>lsp_engine = Some [], code_analyzer = other\<rparr>"
    using bundle_shared_modules_absent_as_empty(1)
      [of a "\<lparr>lsp_engine = None, code_analyzer = other\<rparr>"]
    by simp
  have an: "bundle_shared_modules a \<lparr>lsp_engine = other, code_analyzer = None\<rparr>
       = bundle_shared_modules a \<lparr>lsp_engine = other, code_analyzer = Some []\<rparr>"
    using bundle_shared_modules_absent_as_empty(2)
      [of a "\<lparr>lsp_engine = other, code_analyzer = None\<rparr>"]
    by simp
  show ?thesis
    by (simp add: none lsp an bundle_shared_modules_keys)
qed


theorem bundle_missing_subtree_witness:
  "bundle_shared_modules Codex \<lparr>lsp_engine = None, code_analyzer = None\<rparr> = []
   \<and> fst ` set (bundle_shared_modules Codex \<lparr>lsp_engine = None, code_analyzer =
          Some [(''code_analyzer/rules.yml'', ''a: 1''), (''code_analyzer/notes.md'', ''n'')]\<rparr>)
       = {''code_analyzer/rules.yml''}
   \<and> fst ` set (bundle_shared_modules Codex \<lparr>lsp_engine =
          Some [(''lsp-engine/client.py'', ''pass''), (''lsp-engine/rules.yml'', ''b: 2'')],
          code_analyzer = None\<rparr>)
       = {''lsp-engine/client.py''}"
  using bundle_missing_subtree [of Codex
      "[(''code_analyzer/rules.yml'', ''a: 1''), (''code_analyzer/notes.md'', ''n'')]"
      "[(''lsp-engine/client.py'', ''pass''), (''lsp-engine/rules.yml'', ''b: 2'')]" None]
  by (simp add: suffix_to_prefix Collect_conv_if conj_disj_distribR Collect_disj_eq)

text \<open>
  Claim C1, at a shared module with the line \<open>from shared.foo import bar\<close>: the
  OpenCode adapter stages the rewritten text, while the Codex and the Gemini adapter
  stage the file as it is, the original import still in it.
\<close>

theorem codex_gemini_keep_shared_import:
  "codex_bundle_shared_modules
       \<lparr>lsp_engine = Some [(''lsp-engine/client.py'', ''from shared.foo import bar'')],
        code_analyzer = None\<rparr>
     = [(''lsp-engine/client.py'', ''from shared.foo import bar'')]
   \<and> gemini_bundle_shared_modules
       \<lparr>lsp_engine = Some [(''lsp-engine/client.py'', ''from shared.foo import bar'')],
        code_analyzer = None\<rparr>
     = [(''lsp-engine/client.py'', ''from shared.foo import bar'')]
   \<and> opencode_bundle_shared_modules
       \<lparr>lsp_engine = Some [(''lsp-engine/client.py'', ''from shared.foo import bar'')],
        code_analyzer = None\<rparr>
     = [(''lsp-engine/client.py'', ''from .shared.foo import bar'')]
   \<and> str_in ''from shared.foo'' ''from shared.foo import bar''
   \<and> \<not> str_in ''from shared.foo'' ''from .shared.foo import bar''"
  by (simp add: codex_bundle_shared_modules_def gemini_bundle_shared_modules_def
      opencode_bundle_shared_modules_def collect_shared_modules_def stage_files_def
      rglob_def suffix_to_prefix rewrite_shared_imports_def is_word_char_def)

text \<open>
  The rewrite follows \<^verbatim>\<open>\w\<close> beyond ASCII: a module name with the Latin-1 letter
  \<open>0xE9\<close> is taken whole.
\<close>

lemma rewrite_shared_imports_latin1:
  "rewrite_shared_imports (''from shared.'' @ [CHR 0xE9] @ ''quipe import x'')
     = ''from .shared.'' @ [CHR 0xE9] @ ''quipe import x''"
  by (simp add: rewrite_shared_imports_def is_word_char_def)

section \<open>Merging the bundle into the output\<close>

lemma fold_update_keys:
  "fst ` set (fold (\<lambda>(p, c). AList.update (f p) (g c)) ms out) = f ` fst ` set ms \<union> fst ` set out"
proof (induction ms arbitrary: out)
  case Nil
  show ?case by simp
next
  case (Cons m ms)
  obtain p c where m: "m = (p, c)" by (cases m)
  show ?case
    by (simp add: m Cons.IH dom_update)
qed

lemma fold_update_distinct:
  "distinct (map fst out) \<Longrightarrow> distinct (map fst (fold (\<lambda>(p, c). AList.update (f p) (g c)) ms out))"
proof (induction ms arbitrary: out)
  case Nil
  then show ?case by simp
next
  case (Cons m ms)
  obtain p c where m: "m = (p, c)" by (cases m)
  show ?case
    using Cons.prems by (simp add: m Cons.IH distinct_update)
qed

lemma fold_update_other_key:
  "key \<notin> f ` fst ` set ms
   \<Longrightarrow> map_of (fold (\<lambda>(p, c). AList.update (f p) (g c)) ms out) key = map_of out key"
proof (induction ms arbitrary: out)
  case Nil
  show ?case by simp
next
  case (Cons m ms)
  obtain p c where m: "m = (p, c)" by (cases m)
  from Cons.prems have ne: "key \<noteq> f p" and rest: "key \<notin> f ` fst ` set ms"
    by (auto simp: m)
  show ?case
    using ne by (simp add: m Cons.IH [OF rest] update_conv')
qed

lemma fold_update_lookup:
  "distinct (map fst ms) \<Longrightarrow> inj f \<Longrightarrow> (path, content) \<in> set ms
   \<Longrightarrow> map_of (fold (\<lambda>(p, c). AList.update (f p) (g c)) ms out) (f path) = Some (g content)"
proof (induction ms arbitrary: out)
  case Nil
  then show ?case by simp
next
  case (Cons m ms)
  obtain p c where m: "m = (p, c)" by (cases m)
  show ?case
  proof (cases "(path, content) \<in> set ms")
    case True
    with Cons.prems show ?thesis
      by (simp add: m Cons.IH)
  next
    case False
    with Cons.prems have eq: "p = path" "c = content" and "path \<notin> fst ` set ms"
      by (auto simp: m)
    with \<open>inj f\<close> have "f path \<notin> f ` fst ` set ms"
      by (auto dest: injD)
    then show ?thesis
      by (simp add: m eq fold_update_other_key update_conv')
  qed
qed

lemma merge_shared_keys:
  "fst ` set (merge_shared shared_modules out_scripts)
     = (\<lambda>p. ''shared/'' @ p) ` fst ` set shared_modules \<union> fst ` set out_scripts"
  unfolding merge_shared_def by (rule fold_update_keys)

lemma merge_shared_distinct:
  "distinct (map fst out_scripts) \<Longrightarrow> distinct (map fst (merge_shared shared_modules out_scripts))"
  unfolding merge_shared_def by (rule fold_update_distinct)

lemma merge_shared_lookup:
  "distinct (map fst shared_modules) \<Longrightarrow> (path, content) \<in> set shared_modules
   \<Longrightarrow> map_of (merge_shared shared_modules out_scripts) (''shared/'' @ path) = Some (Str content)"
  unfolding merge_shared_def
  by (rule fold_update_lookup [where f = "\<lambda>p. ''shared/'' @ p"]) (simp_all add: inj_def)

text \<open>
  Claim C7. When the scripts mapping already has an entry at \<open>shared/<relpath>\<close> and
  a bundled file is staged under that key, \<open>transform_skill\<close> returns an output (no
  error) whose keys are still unique and whose entry at that key is the bundled text.
\<close>

theorem bundle_overwrites_existing_key:
  assumes "distinct (map fst (scripts out))"
    and "needs_shared_modules (scripts out)"
    and "(path, content) \<in> set (bundle_shared_modules a shared_dir)"
    and "map_of (scripts out) (''shared/'' @ path) = Some old"
  shows "\<exists>out'. transform_skill a shared_dir (Inr out) = Inr out'
           \<and> distinct (map fst (scripts out'))
           \<and> map_of (scripts out') (''shared/'' @ path) = Some (Str content)
           \<and> skill_md out' = skill_md out"
proof -
  let ?merged = "merge_shared (bundle_shared_modules a shared_dir) (scripts out)"
  have run: "transform_skill a shared_dir (Inr out) = Inr (out\<lparr>scripts := ?merged\<rparr>)"
    using assms(2) by (simp add: transform_skill_def del: bundle_shared_modules.simps)
  have d: "distinct (map fst ?merged)"
    using assms(1) by (rule merge_shared_distinct)
  have l: "map_of ?merged (''shared/'' @ path) = Some (Str content)"
    using bundle_shared_modules_distinct assms(3) by (rule merge_shared_lookup)
  show ?thesis
    unfolding run using d l by simp
qed

theorem bundle_overwrites_existing_key_witness:
  "\<exists>out'. transform_skill Gemini
        \<lparr>lsp_engine = Some [(''lsp-engine/client.py'', ''pass'')], code_analyzer = None\<rparr>
        (Inr \<lparr>skill_md = ''m'', scripts =
           [(''shared/lsp-engine/client.py'', Str ''import lsp_client''), (''check.py'', Str ''x'')]\<rparr>)
      = Inr out'
    \<and> distinct (map fst (scripts out'))
    \<and> map_of (scripts out') ''shared/lsp-engine/client.py'' = Some (Str ''pass'')
    \<and> skill_md out' = ''m''"
proof -
  have b: "(''lsp-engine/client.py'', ''pass'') \<in> set (bundle_shared_modules Gemini
      \<lparr>lsp_engine = Some [(''lsp-engine/client.py'', ''pass'')], code_analyzer = None\<rparr>)"
    by (simp add: gemini_bundle_shared_modules_def collect_shared_modules_def stage_files_def
        rglob_def suffix_to_prefix)
  have d: "distinct (map fst (scripts \<lparr>skill_md = ''m'', scripts =
           [(''shared/lsp-engine/client.py'', Str ''import lsp_client''), (''check.py'', Str ''x'')]\<rparr>))"
    by simp
  have n: "needs_shared_modules (scripts \<lparr>skill_md = ''m'', scripts =
           [(''shared/lsp-engine/client.py'', Str ''import lsp_client''), (''check.py'', Str ''x'')]\<rparr>)"
    by simp
  have m: "map_of (scripts \<lparr>skill_md = ''m'', scripts =
           [(''shared/lsp-engine/client.py'', Str ''import lsp_client''), (''check.py'', Str ''x'')]\<rparr>)
         (''shared/'' @ ''lsp-engine/client.py'') = Some (Str ''import lsp_client'')"
    by simp
  show ?thesis
    using bundle_overwrites_existing_key [OF d n b m] by simp
qed

text \<open>
  Claim C2 fails as stated: a script has a marker, but the shared root has neither
  subdirectory, so nothing is bundled and no key starts with \<open>shared/\<close>.
\<close>

theorem no_shared_key_without_modules:
  "needs_shared_modules [(''check.py'', Str ''import shared'')]
   \<and> transform_skill Codex \<lparr>lsp_engine = None, code_analyzer = None\<rparr>
        (Inr \<lparr>skill_md = ''m'', scripts = [(''check.py'', Str ''import shared'')]\<rparr>)
      = Inr \<lparr>skill_md = ''m'', scripts = [(''check.py'', Str ''import shared'')]\<rparr>
   \<and> \<not> prefix ''shared/'' ''check.py''"
  by (simp add: transform_skill_def codex_bundle_shared_modules_def collect_shared_modules_def
      merge_shared_def)

lemma needs_shared_modules_of_entry:
  "(k, Str content) \<in> set entries
   \<Longrightarrow> str_in ''lsp_client'' content \<or> str_in ''code_analyzer'' content
       \<or> str_in ''from shared'' content \<or> str_in ''import shared'' content
   \<Longrightarrow> needs_shared_modules entries"
  unfolding needs_shared_modules_markers by blast

lemma rglob_nonempty_keys:
  "rglob ext files \<noteq> [] \<Longrightarrow> \<exists>p. p \<in> fst ` set files \<and> suffix ext p"
proof -
  assume "rglob ext files \<noteq> []"
  then obtain e where "e \<in> set (rglob ext files)"
    by (cases "rglob ext files") auto
  then have "fst e \<in> fst ` set (rglob ext files)"
    by (rule imageI)
  then show ?thesis
    unfolding rglob_keys by blast
qed

lemma bundle_shared_modules_nonempty:
  assumes "(\<exists>lsp_dir. lsp_engine shared_dir = Some lsp_dir \<and> rglob ''.py'' lsp_dir \<noteq> [])
         \<or> (\<exists>analyzer_dir. code_analyzer shared_dir = Some analyzer_dir
               \<and> (rglob ''.py'' analyzer_dir \<noteq> [] \<or> rglob ''.yml'' analyzer_dir \<noteq> []
                    \<or> rglob ''.xml'' analyzer_dir \<noteq> []))"
  shows "\<exists>p. p \<in> fst ` set (bundle_shared_modules a shared_dir)"
  using assms
proof
  assume "\<exists>lsp_dir. lsp_engine shared_dir = Some lsp_dir \<and> rglob ''.py'' lsp_dir \<noteq> []"
  then obtain lsp_dir where l: "lsp_engine shared_dir = Some lsp_dir"
    and "rglob ''.py'' lsp_dir \<noteq> []"
    by blast
  from rglob_nonempty_keys [OF this(2)] obtain p
    where "p \<in> fst ` set lsp_dir" "suffix ''.py'' p"
    by blast
  then have "p \<in> fst ` set (bundle_shared_modules a shared_dir)"
    unfolding bundle_shared_modules_keys l by simp
  then show ?thesis ..
next
  assume "\<exists>analyzer_dir. code_analyzer shared_dir = Some analyzer_dir
               \<and> (rglob ''.py'' analyzer_dir \<noteq> [] \<or> rglob ''.yml'' analyzer_dir \<noteq> []
                    \<or> rglob ''.xml'' analyzer_dir \<noteq> [])"
  then obtain analyzer_dir where l: "code_analyzer shared_dir = Some analyzer_dir"
    and r: "rglob ''.py'' analyzer_dir \<noteq> [] \<or> rglob ''.yml'' analyzer_dir \<noteq> []
                    \<or> rglob ''.xml'' analyzer_dir \<noteq> []"
    by blast
  from r obtain p where "p \<in> fst ` set analyzer_dir"
    "suffix ''.py'' p \<or> suffix ''.yml'' p \<or> suffix ''.xml'' p"
    using rglob_nonempty_keys [of "''.py''" analyzer_dir]
      rglob_nonempty_keys [of "''.yml''" analyzer_dir]
      rglob_nonempty_keys [of "''.xml''" analyzer_dir]
    by metis
  then have "p \<in> fst ` set (bundle_shared_modules a shared_dir)"
    unfolding bundle_shared_modules_keys l by simp
  then show ?thesis ..
qed


text \<open>
  Claim C2, amended. If a \<open>str\<close> entry of the scripts mapping has one of the four
  markers and an existing subdirectory of the shared root holds at least one file the
  adapter collects (\<open>.py\<close> under \<open>lsp-engine\<close>; \<open>.py\<close>, \<open>.yml\<close> or \<open>.xml\<close> under
  \<open>code_analyzer\<close>), then the output has a key that starts with \<open>shared/\<close>.
\<close>

theorem bundling_completeness:
  assumes "(k, Str content) \<in> set (scripts out)"
    and "str_in ''lsp_client'' content \<or> str_in ''code_analyzer'' content
         \<or> str_in ''from shared'' content \<or> str_in ''import shared'' content"
    and "(\<exists>lsp_dir. lsp_engine shared_dir = Some lsp_dir \<and> rglob ''.py'' lsp_dir \<noteq> [])
         \<or> (\<exists>analyzer_dir. code_analyzer shared_dir = Some analyzer_dir
               \<and> (rglob ''.py'' analyzer_dir \<noteq> [] \<or> rglob ''.yml'' analyzer_dir \<noteq> []
                    \<or> rglob ''.xml'' analyzer_dir \<noteq> []))"
  shows "\<exists>out'. transform_skill a shared_dir (Inr out) = Inr out'
           \<and> (\<exists>key \<in> fst ` set (scripts out'). prefix ''shared/'' key)"
proof -
  let ?mods = "bundle_shared_modules a shared_dir"
  let ?merged = "merge_shared ?mods (scripts out)"
  have needs: "needs_shared_modules (scripts out)"
    using assms(1,2) by (rule needs_shared_modules_of_entry)
  from bundle_shared_modules_nonempty [OF assms(3)] obtain p where "p \<in> fst ` set ?mods"
    by blast
  then have key: "''shared/'' @ p \<in> fst ` set ?merged"
    unfolding merge_shared_keys by blast
  have run: "transform_skill a shared_dir (Inr out) = Inr (out\<lparr>scripts := ?merged\<rparr>)"
    using needs by (simp add: transform_skill_def del: bundle_shared_modules.simps)
  have pre: "prefix ''shared/'' (''shared/'' @ p)"
    by (rule prefixI) (rule refl)
  have "\<exists>key \<in> fst ` set ?merged. prefix ''shared/'' key"
    using pre key by (rule bexI)
  moreover have "scripts (out\<lparr>scripts := ?merged\<rparr>) = ?merged"
    by simp
  ultimately have "\<exists>key \<in> fst ` set (scripts (out\<lparr>scripts := ?merged\<rparr>)). prefix ''shared/'' key"
    by (rule ssubst [rotated])
  with run show ?thesis
    by blast
qed

theorem bundling_completeness_witness:
  "\<exists>out'. transform_skill OpenCode
        \<lparr>lsp_engine = Some [(''lsp-engine/client.py'', ''pass'')], code_analyzer = None\<rparr>
        (Inr \<lparr>skill_md = ''m'', scripts = [(''check.py'', Str ''import shared'')]\<rparr>)
      = Inr out'
    \<and> (\<exists>key \<in> fst ` set (scripts out'). prefix ''shared/'' key)"
proof -
  have e: "(''check.py'', Str ''import shared'')
      \<in> set (scripts \<lparr>skill_md = ''m'', scripts = [(''check.py'', Str ''import shared'')]\<rparr>)"
    by simp
  have m: "str_in ''lsp_client'' ''import shared'' \<or> str_in ''code_analyzer'' ''import shared''
         \<or> str_in ''from shared'' ''import shared'' \<or> str_in ''import shared'' ''import shared''"
    by simp
  have s: "(\<exists>lsp_dir. lsp_engine \<lparr>lsp_engine = Some [(''lsp-engine/client.py'', ''pass'')],
              code_analyzer = None\<rparr> = Some lsp_dir \<and> rglob ''.py'' lsp_dir \<noteq> [])
         \<or> (\<exists>analyzer_dir. code_analyzer \<lparr>lsp_engine = Some [(''lsp-engine/client.py'', ''pass'')],
              code_analyzer = None\<rparr> = Some analyzer_dir
               \<and> (rglob ''.py'' analyzer_dir \<noteq> [] \<or> rglob ''.yml'' analyzer_dir \<noteq> []
                    \<or> rglob ''.xml'' analyzer_dir \<noteq> []))"
    by (simp add: rglob_def suffix_to_prefix)
  show ?thesis
    using bundling_completeness [OF e m s, of OpenCode] .
qed

section \<open>Replacement and occurrences\<close>

lemma str_replace_hit:
  "prefix (a # old) (c # cs) \<Longrightarrow>
     str_replace (a # old) new (c # cs)
       = new @ str_replace (a # old) new (drop (length (a # old)) (c # cs))"
  by simp

lemma str_replace_miss:
  "\<not> prefix (a # old) (c # cs) \<Longrightarrow>
     str_replace (a # old) new (c # cs) = c # str_replace (a # old) new cs"
  by auto

lemma prefix_append_disj: "prefix q (xs @ ys) \<Longrightarrow> prefix q xs \<or> prefix xs q"
  by (auto simp: prefix_append)

lemma prefix_str_replaceD:
  assumes "\<forall>u \<in> set (suffixes t). u \<noteq> [] \<longrightarrow> \<not> prefix u new \<and> \<not> prefix new u"
    and "prefix t (str_replace (a # old) new s)"
  shows "prefix t s"
  using assms
proof (induction s arbitrary: t)
  case Nil
  then show ?case by simp
next
  case (Cons c cs)
  show ?case
  proof (cases "t = []")
    case True
    then show ?thesis by simp
  next
    case False
    then have self: "\<not> prefix t new \<and> \<not> prefix new t"
      using Cons.prems(1) by (simp add: in_set_suffixes)
    show ?thesis
    proof (cases "prefix (a # old) (c # cs)")
      case True
      from Cons.prems(2) have "prefix t new \<or> prefix new t"
        unfolding str_replace_hit [OF True] by (rule prefix_append_disj)
      with self show ?thesis by blast
    next
      case no: False
      from Cons.prems(2) have p: "prefix t (c # str_replace (a # old) new cs)"
        unfolding str_replace_miss [OF no] .
      with False obtain t' where t: "t = c # t'" and p': "prefix t' (str_replace (a # old) new cs)"
        by (cases t) auto
      have "\<forall>u \<in> set (suffixes t'). u \<noteq> [] \<longrightarrow> \<not> prefix u new \<and> \<not> prefix new u"
        using Cons.prems(1) unfolding t by (simp add: in_set_suffixes suffix_Cons)
      from Cons.IH [OF this p'] show ?thesis
        unfolding t by simp
    qed
  qed
qed

lemma sublist_append_cases:
  assumes "sublist q (xs @ ys)" and "\<not> sublist q ys" and "q \<noteq> []"
  shows "\<exists>u \<in> set (suffixes xs). u \<noteq> [] \<and> (prefix u q \<or> prefix q u)"
  using assms
proof (induction xs)
  case Nil
  then show ?case by simp
next
  case (Cons x xs)
  show ?case
  proof (cases "prefix q ((x # xs) @ ys)")
    case True
    then have "prefix q (x # xs) \<or> prefix (x # xs) q"
      by (rule prefix_append_disj)
    moreover have "x # xs \<in> set (suffixes (x # xs))"
      by (simp add: in_set_suffixes)
    ultimately show ?thesis
      by blast
  next
    case False
    with Cons.prems(1) have "sublist q (xs @ ys)"
      by (simp add: sublist_Cons_right)
    from Cons.IH [OF this Cons.prems(2,3)] obtain u
      where "u \<in> set (suffixes xs)" "u \<noteq> []" "prefix u q \<or> prefix q u"
      by blast
    moreover from this(1) have "u \<in> set (suffixes (x # xs))"
      by (simp add: in_set_suffixes suffix_Cons)
    ultimately show ?thesis
      by blast
  qed
qed


lemma str_replace_free:
  assumes "q \<noteq> []"
    and "\<forall>u \<in> set (suffixes new). u \<noteq> [] \<longrightarrow> \<not> prefix u q \<and> \<not> prefix q u"
    and "\<forall>u \<in> set (suffixes q). u \<noteq> [] \<longrightarrow> \<not> prefix u new \<and> \<not> prefix new u"
    and "q = a # old \<or> \<not> sublist q s"
  shows "\<not> sublist q (str_replace (a # old) new s)"
  using assms(4)
proof (induction s rule: length_induct)
  case (1 s)
  show ?case
  proof (cases s)
    case Nil
    with assms(1) show ?thesis by simp
  next
    case (Cons c cs)
    show ?thesis
    proof (cases "prefix (a # old) (c # cs)")
      case True
      let ?rest = "drop (length (a # old)) (c # cs)"
      have "sublist ?rest s"
        unfolding Cons by (rule sublist_drop)
      with "1.prems" have "q = a # old \<or> \<not> sublist q ?rest"
        using sublist_order.order_trans by blast
      moreover have "length ?rest < length s"
        unfolding Cons by simp
      ultimately have free: "\<not> sublist q (str_replace (a # old) new ?rest)"
        using "1.IH" by blast
      show ?thesis
      proof
        assume "sublist q (str_replace (a # old) new s)"
        then have "sublist q (new @ str_replace (a # old) new ?rest)"
          unfolding Cons str_replace_hit [OF True] .
        from sublist_append_cases [OF this free assms(1)] assms(2)
        show False by blast
      qed
    next
      case False
      have "q = a # old \<or> \<not> sublist q cs"
        using "1.prems" unfolding Cons by (auto simp: sublist_Cons_right)
      moreover have "length cs < length s"
        unfolding Cons by simp
      ultimately have free: "\<not> sublist q (str_replace (a # old) new cs)"
        using "1.IH" by blast
      show ?thesis
      proof
        assume a: "sublist q (str_replace (a # old) new s)"
        then have "sublist q (c # str_replace (a # old) new cs)"
          unfolding Cons str_replace_miss [OF False] .
        with free have "prefix q (c # str_replace (a # old) new cs)"
          by (simp add: sublist_Cons_right)
        then have "prefix q (str_replace (a # old) new (c # cs))"
          unfolding str_replace_miss [OF False] .
        from prefix_str_replaceD [OF assms(3) this] have p: "prefix q (c # cs)" .
        then have "sublist q s"
          unfolding Cons by (rule prefix_imp_sublist)
        with "1.prems" have "q = a # old"
          by blast
        with p False show False
          by blast
      qed
    qed
  qed
qed

section \<open>Directory renames of the Codex adapter\<close>

lemma codex_dir_renames_free:
  "\<not> sublist ''templates/'' (codex_dir_renames content)"
  "\<not> sublist ''docs/'' (codex_dir_renames content)"
proof -
  let ?s1 = "str_replace ''templates/'' ''assets/'' content"
  let ?s2 = "str_replace ''docs/'' ''references/'' ?s1"
  let ?s3 = "str_replace ''`templates`'' ''`assets`'' ?s2"
  let ?s4 = "str_replace ''`docs`'' ''`references`'' ?s3"
  have t1: "\<not> sublist ''templates/'' ?s1"
    by (rule str_replace_free) simp_all
  have t2: "\<not> sublist ''templates/'' ?s2"
    by (rule str_replace_free) (simp_all add: t1)
  have t3: "\<not> sublist ''templates/'' ?s3"
    by (rule str_replace_free) (simp_all add: t2)
  have t4: "\<not> sublist ''templates/'' ?s4"
    by (rule str_replace_free) (simp_all add: t3)
  have d2: "\<not> sublist ''docs/'' ?s2"
    by (rule str_replace_free) simp_all
  have d3: "\<not> sublist ''docs/'' ?s3"
    by (rule str_replace_free) (simp_all add: d2)
  have d4: "\<not> sublist ''docs/'' ?s4"
    by (rule str_replace_free) (simp_all add: d3)
  show "\<not> sublist ''templates/'' (codex_dir_renames content)"
    unfolding codex_dir_renames_def Let_def by (rule t4)
  show "\<not> sublist ''docs/'' (codex_dir_renames content)"
    unfolding codex_dir_renames_def Let_def by (rule d4)
qed

section \<open>Replacement next to other text\<close>

lemma prefix_str_replace_sharedD:
  assumes "\<forall>u \<in> set (suffixes t). u \<noteq> [] \<and> (prefix u new \<or> prefix new u) \<longrightarrow> prefix u (a # old)"
    and "prefix t (str_replace (a # old) new s)"
  shows "prefix t s"
  using assms
proof (induction s arbitrary: t)
  case Nil
  then show ?case by simp
next
  case (Cons c cs)
  show ?case
  proof (cases "t = []")
    case True
    then show ?thesis by simp
  next
    case False
    then have self: "t \<in> set (suffixes t)" "t \<noteq> []"
      by (simp_all add: in_set_suffixes)
    show ?thesis
    proof (cases "prefix (a # old) (c # cs)")
      case True
      from Cons.prems(2) have "prefix t new \<or> prefix new t"
        unfolding str_replace_hit [OF True] by (rule prefix_append_disj)
      with Cons.prems(1) self have "prefix t (a # old)"
        by blast
      then show ?thesis
        using True by (rule prefix_order.order_trans)
    next
      case no: False
      from Cons.prems(2) have p: "prefix t (c # str_replace (a # old) new cs)"
        unfolding str_replace_miss [OF no] .
      with False obtain t' where t: "t = c # t'" and p': "prefix t' (str_replace (a # old) new cs)"
        by (cases t) auto
      have "\<forall>u \<in> set (suffixes t'). u \<noteq> [] \<and> (prefix u new \<or> prefix new u) \<longrightarrow> prefix u (a # old)"
        using Cons.prems(1) unfolding t by (simp add: in_set_suffixes suffix_Cons)
      from Cons.IH [OF this p'] show ?thesis
        unfolding t by simp
    qed
  qed
qed

lemma sublist_append_start:
  assumes "sublist q (xs @ ys)" and "\<not> sublist q ys" and "q \<noteq> []"
  shows "\<exists>u \<in> set (suffixes xs). u \<noteq> [] \<and> prefix q (u @ ys)"
  using assms
proof (induction xs)
  case Nil
  then show ?case by simp
next
  case (Cons x xs)
  show ?case
  proof (cases "prefix q ((x # xs) @ ys)")
    case True
    moreover have "x # xs \<in> set (suffixes (x # xs))"
      by (simp add: in_set_suffixes)
    ultimately show ?thesis
      by blast
  next
    case False
    with Cons.prems(1) have "sublist q (xs @ ys)"
      by (simp add: sublist_Cons_right)
    from Cons.IH [OF this Cons.prems(2,3)] obtain u
      where "u \<in> set (suffixes xs)" "u \<noteq> []" "prefix q (u @ ys)"
      by blast
    moreover from this(1) have "u \<in> set (suffixes (x # xs))"
      by (simp add: in_set_suffixes suffix_Cons)
    ultimately show ?thesis
      by blast
  qed
qed

lemma str_replace_free_shared:
  assumes "q \<noteq> []"
    and "\<forall>u \<in> set (suffixes new). u \<noteq> [] \<and> (prefix u q \<or> prefix q u) \<longrightarrow> u = [hd q]"
    and "\<forall>u \<in> set (suffixes q). u \<noteq> [] \<and> (prefix u new \<or> prefix new u) \<longrightarrow> prefix u (a # old)"
    and "\<not> sublist ((a # old) @ tl q) s"
    and "q = a # old \<or> \<not> sublist q s"
  shows "\<not> sublist q (str_replace (a # old) new s)"
  using assms(4,5)
proof (induction s rule: length_induct)
  case (1 s)
  show ?case
  proof (cases s)
    case Nil
    with assms(1) show ?thesis by simp
  next
    case (Cons c cs)
    have tl_cond: "\<forall>u \<in> set (suffixes (tl q)). u \<noteq> [] \<and> (prefix u new \<or> prefix new u)
        \<longrightarrow> prefix u (a # old)"
      using assms(1,3) by (cases q) (simp_all add: in_set_suffixes suffix_Cons)
    show ?thesis
    proof (cases "prefix (a # old) (c # cs)")
      case True
      let ?rest = "drop (length (a # old)) (c # cs)"
      have split: "c # cs = (a # old) @ ?rest"
        using True by (metis append_eq_conv_conj prefixE)
      have sub: "sublist ?rest s"
        unfolding Cons by (rule sublist_drop)
      with "1.prems" have "\<not> sublist ((a # old) @ tl q) ?rest" "q = a # old \<or> \<not> sublist q ?rest"
        using sublist_order.order_trans by blast+
      moreover have "length ?rest < length s"
        unfolding Cons by simp
      ultimately have free: "\<not> sublist q (str_replace (a # old) new ?rest)"
        using "1.IH" by blast
      show ?thesis
      proof
        assume "sublist q (str_replace (a # old) new s)"
        then have "sublist q (new @ str_replace (a # old) new ?rest)"
          unfolding Cons str_replace_hit [OF True] .
        from sublist_append_start [OF this free assms(1)] obtain u
          where u: "u \<in> set (suffixes new)" "u \<noteq> []"
            and p: "prefix q (u @ str_replace (a # old) new ?rest)"
          by blast
        from p have "prefix q u \<or> prefix u q"
          by (rule prefix_append_disj)
        with assms(2) u have "u = [hd q]"
          by blast
        with p assms(1) have "prefix (tl q) (str_replace (a # old) new ?rest)"
          by (cases q) simp_all
        from prefix_str_replace_sharedD [OF tl_cond this] have "prefix (tl q) ?rest" .
        then have "prefix ((a # old) @ tl q) ((a # old) @ ?rest)"
          by (simp only: same_prefix_prefix)
        then have "sublist ((a # old) @ tl q) s"
          unfolding Cons split [symmetric] by (rule prefix_imp_sublist)
        with "1.prems"(1) show False by blast
      qed
    next
      case False
      have "sublist cs s"
        unfolding Cons by (simp add: sublist_Cons_right)
      with "1.prems" have "\<not> sublist ((a # old) @ tl q) cs" "q = a # old \<or> \<not> sublist q cs"
        using sublist_order.order_trans by blast+
      moreover have "length cs < length s"
        unfolding Cons by simp
      ultimately have free: "\<not> sublist q (str_replace (a # old) new cs)"
        using "1.IH" by blast
      show ?thesis
      proof
        assume "sublist q (str_replace (a # old) new s)"
        then have "sublist q (c # str_replace (a # old) new cs)"
          unfolding Cons str_replace_miss [OF False] .
        with free have "prefix q (c # str_replace (a # old) new cs)"
          by (simp add: sublist_Cons_right)
        then have "prefix q (str_replace (a # old) new (c # cs))"
          unfolding str_replace_miss [OF False] .
        from prefix_str_replace_sharedD [OF assms(3) this] have p: "prefix q (c # cs)" .
        then have "sublist q s"
          unfolding Cons by (rule prefix_imp_sublist)
        with "1.prems"(2) have "q = a # old"
          by blast
        with p False show False
          by blast
      qed
    qed
  qed
qed

lemma str_replace_unchanged:
  "\<not> sublist new (str_replace (a # old) new s) \<Longrightarrow> str_replace (a # old) new s = s"
proof (induction s rule: length_induct)
  case (1 s)
  show ?case
  proof (cases s)
    case Nil
    then show ?thesis by simp
  next
    case (Cons c cs)
    show ?thesis
    proof (cases "prefix (a # old) (c # cs)")
      case True
      have "sublist new (str_replace (a # old) new s)"
        unfolding Cons str_replace_hit [OF True] by (rule sublist_append_rightI)
      with "1.prems" show ?thesis by blast
    next
      case False
      have "sublist (str_replace (a # old) new cs) (str_replace (a # old) new s)"
        unfolding Cons str_replace_miss [OF False] by (simp add: sublist_Cons_right)
      with "1.prems" have "\<not> sublist new (str_replace (a # old) new cs)"
        using sublist_order.order_trans by blast
      moreover have "length cs < length s"
        unfolding Cons by simp
      ultimately have "str_replace (a # old) new cs = cs"
        using "1.IH" by blast
      then show ?thesis
        unfolding Cons str_replace_miss [OF False] by simp
    qed
  qed
qed

lemma suffix_str_replaceD:
  assumes "\<not> sublist new t"
    and "\<forall>v \<in> set (prefixes t). v \<noteq> [] \<and> suffix v new \<longrightarrow> suffix v (a # old)"
    and "suffix t (str_replace (a # old) new x)"
  shows "suffix t x"
  using assms(3)
proof (induction x rule: length_induct)
  case (1 x)
  show ?case
  proof (cases x)
    case Nil
    with "1.prems" show ?thesis by simp
  next
    case (Cons c cs)
    show ?thesis
    proof (cases "prefix (a # old) (c # cs)")
      case True
      let ?rest = "drop (length (a # old)) (c # cs)"
      let ?R = "str_replace (a # old) new ?rest"
      have split: "x = (a # old) @ ?rest"
        unfolding Cons using True by (metis append_eq_conv_conj prefixE)
      have less: "length ?rest < length x"
        unfolding Cons by simp
      from "1.prems" have "suffix t (new @ ?R)"
        unfolding Cons str_replace_hit [OF True] .
      then consider "suffix t ?R" | v where "t = v @ ?R" "suffix v new"
        unfolding suffix_append by blast
      then show ?thesis
      proof cases
        case 1
        with "1.IH" less have "suffix t ?rest"
          by blast
        then show ?thesis
          by (subst split) (rule suffix_appendI)
      next
        case 2
        show ?thesis
        proof (cases "v = []")
          case True
          with 2 have "suffix t ?R" by simp
          with "1.IH" less have "suffix t ?rest"
            by blast
          then show ?thesis
            by (subst split) (rule suffix_appendI)
        next
          case False
          have "v \<in> set (prefixes t)"
            unfolding 2(1) by (simp add: in_set_prefixes)
          with assms(2) False 2(2) have v: "suffix v (a # old)"
            by blast
          have "sublist ?R t"
            unfolding 2(1) by (rule sublist_append_leftI)
          with assms(1) have "\<not> sublist new ?R"
            using sublist_order.order_trans by blast
          then have "?R = ?rest"
            by (rule str_replace_unchanged)
          with 2(1) have "t = v @ ?rest" by simp
          moreover from v have "suffix (v @ ?rest) ((a # old) @ ?rest)"
            by (simp only: suffix_append) (metis suffix_def append.assoc)
          ultimately show ?thesis
            by (subst split) simp
        qed
      qed
    next
      case False
      let ?R = "str_replace (a # old) new cs"
      have less: "length cs < length x"
        unfolding Cons by simp
      from "1.prems" have "suffix t (c # ?R)"
        unfolding Cons str_replace_miss [OF False] .
      then consider "t = c # ?R" | "suffix t ?R"
        unfolding suffix_Cons by blast
      then show ?thesis
      proof cases
        case 1
        then have "t = str_replace (a # old) new x"
          unfolding Cons str_replace_miss [OF False] .
        with assms(1) have "\<not> sublist new (str_replace (a # old) new x)"
          by simp
        then have "str_replace (a # old) new x = x"
          by (rule str_replace_unchanged)
        with \<open>t = str_replace (a # old) new x\<close> show ?thesis
          by simp
      next
        case 2
        with "1.IH" less have "suffix t cs"
          by blast
        then show ?thesis
          unfolding Cons by (rule suffix_ConsI)
      qed
    qed
  qed
qed

lemma str_replace_append:
  assumes "\<forall>u \<in> set (suffixes (a # old)). u \<noteq> [] \<and> u \<noteq> a # old \<and> prefix u z
      \<longrightarrow> \<not> suffix (take (length (a # old) - length u) (a # old)) x"
  shows "str_replace (a # old) new (x @ z)
      = str_replace (a # old) new x @ str_replace (a # old) new z"
  using assms
proof (induction x rule: length_induct)
  case (1 x)
  show ?case
  proof (cases x)
    case Nil
    then show ?thesis by simp
  next
    case (Cons c cs)
    have same: "prefix (a # old) (x @ z) \<longleftrightarrow> prefix (a # old) x"
    proof
      assume "prefix (a # old) (x @ z)"
      then consider "prefix (a # old) x" | us where "a # old = x @ us" "prefix us z"
        unfolding prefix_append by blast
      then show "prefix (a # old) x"
      proof cases
        case 1
        then show ?thesis .
      next
        case 2
        show ?thesis
        proof (cases "us = []")
          case True
          with 2 show ?thesis by simp
        next
          case False
          have "us \<in> set (suffixes (a # old))"
            unfolding 2(1) in_set_suffixes by (rule suffix_appendI) (rule suffix_order.refl)
          moreover have "us \<noteq> a # old"
            using 2(1) Cons by auto
          moreover have "take (length (a # old) - length us) (a # old) = x"
            unfolding 2(1) by simp
          ultimately have "\<not> suffix x x"
            using "1.prems" False 2(2) by metis
          then show ?thesis by simp
        qed
      qed
    next
      assume "prefix (a # old) x"
      then show "prefix (a # old) (x @ z)"
        by (rule prefix_prefix)
    qed
    show ?thesis
    proof (cases "prefix (a # old) (c # cs)")
      case True
      let ?rest = "drop (length (a # old)) (c # cs)"
      from True have len: "length (a # old) \<le> length (c # cs)"
        by (rule prefix_length_le)
      from True same have hit: "prefix (a # old) (c # cs @ z)"
        unfolding Cons by simp
      have d: "drop (length (a # old)) (c # cs @ z) = ?rest @ z"
        using len by simp
      have "length ?rest < length x"
        unfolding Cons by simp
      moreover have "\<forall>u \<in> set (suffixes (a # old)). u \<noteq> [] \<and> u \<noteq> a # old \<and> prefix u z
          \<longrightarrow> \<not> suffix (take (length (a # old) - length u) (a # old)) ?rest"
        using "1.prems" unfolding Cons
        by (meson suffix_drop suffix_order.order_trans)
      ultimately have "str_replace (a # old) new (?rest @ z)
          = str_replace (a # old) new ?rest @ str_replace (a # old) new z"
        using "1.IH" by blast
      then show ?thesis
        unfolding Cons append_Cons str_replace_hit [OF hit] str_replace_hit [OF True] d
        by simp
    next
      case False
      from False same have miss: "\<not> prefix (a # old) (c # cs @ z)"
        unfolding Cons by simp
      have "length cs < length x"
        unfolding Cons by simp
      moreover have "\<forall>u \<in> set (suffixes (a # old)). u \<noteq> [] \<and> u \<noteq> a # old \<and> prefix u z
          \<longrightarrow> \<not> suffix (take (length (a # old) - length u) (a # old)) cs"
        using "1.prems" unfolding Cons
        by (meson suffix_ConsI)
      ultimately have "str_replace (a # old) new (cs @ z)
          = str_replace (a # old) new cs @ str_replace (a # old) new z"
        using "1.IH" by blast
      then show ?thesis
        unfolding Cons append_Cons str_replace_miss [OF miss] str_replace_miss [OF False]
        by simp
    qed
  qed
qed

lemma str_replace_skip:
  assumes "\<forall>v \<in> set (suffixes m). v \<noteq> [] \<longrightarrow> \<not> prefix (a # old) (v @ y)"
  shows "str_replace (a # old) new (m @ y) = m @ str_replace (a # old) new y"
  using assms
proof (induction m)
  case Nil
  show ?case by simp
next
  case (Cons c m)
  have "c # m \<in> set (suffixes (c # m))"
    by (simp add: in_set_suffixes)
  with Cons.prems have miss: "\<not> prefix (a # old) (c # m @ y)"
    by fastforce
  have "\<forall>v \<in> set (suffixes m). v \<noteq> [] \<longrightarrow> \<not> prefix (a # old) (v @ y)"
    using Cons.prems by (simp add: in_set_suffixes suffix_Cons)
  from Cons.IH [OF this] show ?case
    unfolding append_Cons str_replace_miss [OF miss] by simp
qed

lemma str_replace_at_old:
  "str_replace (a # old) new ((a # old) @ y) = new @ str_replace (a # old) new y"
proof -
  have "prefix (a # old) (a # old @ y)"
    by simp
  from str_replace_hit [OF this] show ?thesis
    by simp
qed

lemma str_replace_chunk:
  assumes "\<forall>u \<in> set (suffixes (a # old)). u \<noteq> [] \<and> u \<noteq> a # old \<and> prefix u (m @ y)
      \<longrightarrow> \<not> suffix (take (length (a # old) - length u) (a # old)) x"
    and "\<forall>v \<in> set (suffixes m). v \<noteq> [] \<longrightarrow> \<not> prefix (a # old) (v @ y)"
  shows "str_replace (a # old) new (x @ m @ y)
      = str_replace (a # old) new x @ m @ str_replace (a # old) new y"
proof -
  have "str_replace (a # old) new (x @ m @ y)
      = str_replace (a # old) new x @ str_replace (a # old) new (m @ y)"
    using assms(1) by (rule str_replace_append)
  also have "str_replace (a # old) new (m @ y) = m @ str_replace (a # old) new y"
    using assms(2) by (rule str_replace_skip)
  finally show ?thesis .
qed

lemma str_replace_occurrence:
  assumes "\<forall>u \<in> set (suffixes (a # old)). u \<noteq> [] \<and> u \<noteq> a # old \<and> prefix u ((a # old) @ y)
      \<longrightarrow> \<not> suffix (take (length (a # old) - length u) (a # old)) x"
  shows "str_replace (a # old) new (x @ (a # old) @ y)
      = str_replace (a # old) new x @ new @ str_replace (a # old) new y"
proof -
  have "str_replace (a # old) new (x @ (a # old) @ y)
      = str_replace (a # old) new x @ str_replace (a # old) new ((a # old) @ y)"
    using assms by (rule str_replace_append)
  also have "str_replace (a # old) new ((a # old) @ y) = new @ str_replace (a # old) new y"
    by (rule str_replace_at_old)
  finally show ?thesis .
qed

section \<open>What the Codex renames do to each form\<close>

lemma codex_dir_renames_slash:
  "codex_dir_renames (x @ ''templates/'' @ y)
     = codex_dir_renames x @ ''assets/'' @ codex_dir_renames y"
  "codex_dir_renames (x @ ''docs/'' @ y)
     = codex_dir_renames x @ ''references/'' @ codex_dir_renames y"
proof -
  let ?r1 = "str_replace ''templates/'' ''assets/''"
  let ?r2 = "str_replace ''docs/'' ''references/''"
  let ?r3 = "str_replace ''`templates`'' ''`assets`''"
  let ?r4 = "str_replace ''`docs`'' ''`references`''"
  have t1: "?r1 (x @ ''templates/'' @ y) = ?r1 x @ ''assets/'' @ ?r1 y" for x y
    by (rule str_replace_occurrence) simp
  have t2: "?r2 (x @ ''assets/'' @ y) = ?r2 x @ ''assets/'' @ ?r2 y" for x y
    by (rule str_replace_chunk) simp_all
  have t3: "?r3 (x @ ''assets/'' @ y) = ?r3 x @ ''assets/'' @ ?r3 y" for x y
    by (rule str_replace_chunk) simp_all
  have t4: "?r4 (x @ ''assets/'' @ y) = ?r4 x @ ''assets/'' @ ?r4 y" for x y
    by (rule str_replace_chunk) simp_all
  show "codex_dir_renames (x @ ''templates/'' @ y)
     = codex_dir_renames x @ ''assets/'' @ codex_dir_renames y"
    unfolding codex_dir_renames_def Let_def t1 t2 t3 t4 ..
  have d1: "?r1 (x @ ''docs/'' @ y) = ?r1 x @ ''docs/'' @ ?r1 y" for x y
    by (rule str_replace_chunk) simp_all
  have d2: "?r2 (x @ ''docs/'' @ y) = ?r2 x @ ''references/'' @ ?r2 y" for x y
    by (rule str_replace_occurrence) simp
  have d3: "?r3 (x @ ''references/'' @ y) = ?r3 x @ ''references/'' @ ?r3 y" for x y
    by (rule str_replace_chunk) simp_all
  have d4: "?r4 (x @ ''references/'' @ y) = ?r4 x @ ''references/'' @ ?r4 y" for x y
    by (rule str_replace_chunk) simp_all
  show "codex_dir_renames (x @ ''docs/'' @ y)
     = codex_dir_renames x @ ''references/'' @ codex_dir_renames y"
    unfolding codex_dir_renames_def Let_def d1 d2 d3 d4 ..
qed

lemma codex_dir_renames_backquoted_free:
  "\<not> sublist ''`templates`templates`'' content \<Longrightarrow> \<not> sublist ''`templates`'' (codex_dir_renames content)"
  "\<not> sublist ''`docs`docs`'' content \<Longrightarrow> \<not> sublist ''`docs`'' (codex_dir_renames content)"
proof -
  let ?s1 = "str_replace ''templates/'' ''assets/'' content"
  let ?s2 = "str_replace ''docs/'' ''references/'' ?s1"
  let ?s3 = "str_replace ''`templates`'' ''`assets`'' ?s2"
  let ?s4 = "str_replace ''`docs`'' ''`references`'' ?s3"
  {
    assume t0: "\<not> sublist ''`templates`templates`'' content"
    have t1: "\<not> sublist ''`templates`templates`'' ?s1"
      by (rule str_replace_free) (simp_all add: t0)
    have t2: "\<not> sublist ''`templates`templates`'' ?s2"
      by (rule str_replace_free) (simp_all add: t1)
    have t3: "\<not> sublist ''`templates`'' ?s3"
      by (rule str_replace_free_shared) (simp_all add: t2)
    have "sublist ''`templates`'' (''`docs`'' @ tl ''`templates`'')"
      by (simp add: sublist_code)
    with t3 have t3': "\<not> sublist (''`docs`'' @ tl ''`templates`'') ?s3"
      using sublist_order.order_trans by blast
    have t4: "\<not> sublist ''`templates`'' ?s4"
      by (rule str_replace_free_shared) (use t3 t3' in simp_all)
    then show "\<not> sublist ''`templates`'' (codex_dir_renames content)"
      unfolding codex_dir_renames_def Let_def .
  }
  {
    assume d0: "\<not> sublist ''`docs`docs`'' content"
    have d1: "\<not> sublist ''`docs`docs`'' ?s1"
      by (rule str_replace_free) (simp_all add: d0)
    have d2: "\<not> sublist ''`docs`docs`'' ?s2"
      by (rule str_replace_free) (simp_all add: d1)
    have "sublist ''`docs`docs`'' (''`templates`'' @ tl ''`docs`docs`'')"
      by (simp add: sublist_code)
    with d2 have d2': "\<not> sublist (''`templates`'' @ tl ''`docs`docs`'') ?s2"
      using sublist_order.order_trans by blast
    have d3: "\<not> sublist ''`docs`docs`'' ?s3"
      by (rule str_replace_free_shared) (use d2 d2' in simp_all)
    have d4: "\<not> sublist ''`docs`'' ?s4"
      by (rule str_replace_free_shared) (simp_all add: d3)
    then show "\<not> sublist ''`docs`'' (codex_dir_renames content)"
      unfolding codex_dir_renames_def Let_def .
  }
qed

lemma codex_dir_renames_backquoted:
  assumes "\<not> suffix ''`templates'' x" and "\<not> suffix ''`docs'' x"
  shows "\<not> prefix ''docs`'' y \<Longrightarrow>
      codex_dir_renames (x @ ''`templates`'' @ y)
        = codex_dir_renames x @ ''`assets`'' @ codex_dir_renames y"
    and "\<not> prefix ''templates`'' y \<Longrightarrow>
      codex_dir_renames (x @ ''`docs`'' @ y)
        = codex_dir_renames x @ ''`references`'' @ codex_dir_renames y"
proof -
  let ?r1 = "str_replace ''templates/'' ''assets/''"
  let ?r2 = "str_replace ''docs/'' ''references/''"
  let ?r3 = "str_replace ''`templates`'' ''`assets`''"
  let ?r4 = "str_replace ''`docs`'' ''`references`''"
  have x1t: "\<not> suffix ''`templates'' (?r1 x)"
    using assms(1) by (rule contrapos_nn) (erule suffix_str_replaceD [rotated 2], simp_all add: sublist_code suffix_to_prefix)
  have x2t: "\<not> suffix ''`templates'' (?r2 (?r1 x))"
    using x1t by (rule contrapos_nn) (erule suffix_str_replaceD [rotated 2], simp_all add: sublist_code suffix_to_prefix)
  have x1d: "\<not> suffix ''`docs'' (?r1 x)"
    using assms(2) by (rule contrapos_nn) (erule suffix_str_replaceD [rotated 2], simp_all add: sublist_code suffix_to_prefix)
  have x2d: "\<not> suffix ''`docs'' (?r2 (?r1 x))"
    using x1d by (rule contrapos_nn) (erule suffix_str_replaceD [rotated 2], simp_all add: sublist_code suffix_to_prefix)
  have x3d: "\<not> suffix ''`docs'' (?r3 (?r2 (?r1 x)))"
    using x2d by (rule contrapos_nn) (erule suffix_str_replaceD [rotated 2], simp_all add: sublist_code suffix_to_prefix)
  {
    assume y0: "\<not> prefix ''docs`'' y"
    have y1: "\<not> prefix ''docs`'' (?r1 y)"
      using y0 by (rule contrapos_nn) (erule prefix_str_replace_sharedD [rotated], simp_all)
    have y2: "\<not> prefix ''docs`'' (?r2 (?r1 y))"
      using y1 by (rule contrapos_nn) (erule prefix_str_replace_sharedD [rotated], simp_all)
    have y3: "\<not> prefix ''docs`'' (?r3 (?r2 (?r1 y)))"
      using y2 by (rule contrapos_nn) (erule prefix_str_replace_sharedD [rotated], simp_all)
    have s1: "?r1 (x @ ''`templates`'' @ y) = ?r1 x @ ''`templates`'' @ ?r1 y"
      by (rule str_replace_chunk) simp_all
    have s2: "?r2 (?r1 x @ ''`templates`'' @ ?r1 y)
        = ?r2 (?r1 x) @ ''`templates`'' @ ?r2 (?r1 y)"
      by (rule str_replace_chunk) simp_all
    have s3: "?r3 (?r2 (?r1 x) @ ''`templates`'' @ ?r2 (?r1 y))
        = ?r3 (?r2 (?r1 x)) @ ''`assets`'' @ ?r3 (?r2 (?r1 y))"
      by (rule str_replace_occurrence) (simp add: x2t)
    have s4: "?r4 (?r3 (?r2 (?r1 x)) @ ''`assets`'' @ ?r3 (?r2 (?r1 y)))
        = ?r4 (?r3 (?r2 (?r1 x))) @ ''`assets`'' @ ?r4 (?r3 (?r2 (?r1 y)))"
      by (rule str_replace_chunk) (simp_all add: x3d y3)
    show "codex_dir_renames (x @ ''`templates`'' @ y)
        = codex_dir_renames x @ ''`assets`'' @ codex_dir_renames y"
      unfolding codex_dir_renames_def Let_def s1 s2 s3 s4 ..
  }
  {
    assume y0: "\<not> prefix ''templates`'' y"
    have y1: "\<not> prefix ''templates`'' (?r1 y)"
      using y0 by (rule contrapos_nn) (erule prefix_str_replace_sharedD [rotated], simp_all)
    have y2: "\<not> prefix ''templates`'' (?r2 (?r1 y))"
      using y1 by (rule contrapos_nn) (erule prefix_str_replace_sharedD [rotated], simp_all)
    have s1: "?r1 (x @ ''`docs`'' @ y) = ?r1 x @ ''`docs`'' @ ?r1 y"
      by (rule str_replace_chunk) simp_all
    have s2: "?r2 (?r1 x @ ''`docs`'' @ ?r1 y) = ?r2 (?r1 x) @ ''`docs`'' @ ?r2 (?r1 y)"
      by (rule str_replace_chunk) simp_all
    have s3: "?r3 (?r2 (?r1 x) @ ''`docs`'' @ ?r2 (?r1 y))
        = ?r3 (?r2 (?r1 x)) @ ''`docs`'' @ ?r3 (?r2 (?r1 y))"
      by (rule str_replace_chunk) (simp_all add: x2t y2)
    have s4: "?r4 (?r3 (?r2 (?r1 x)) @ ''`docs`'' @ ?r3 (?r2 (?r1 y)))
        = ?r4 (?r3 (?r2 (?r1 x))) @ ''`references`'' @ ?r4 (?r3 (?r2 (?r1 y)))"
      by (rule str_replace_occurrence) (simp add: x3d)
    show "codex_dir_renames (x @ ''`docs`'' @ y)
        = codex_dir_renames x @ ''`references`'' @ codex_dir_renames y"
      unfolding codex_dir_renames_def Let_def s1 s2 s3 s4 ..
  }
qed

section \<open>Occurrences of a heading\<close>

lemma str_in_occurrences: "h \<noteq> [] \<Longrightarrow> str_in h s \<longleftrightarrow> 0 < occurrences h s"
  by (induction s) auto

lemma occurrences_skip:
  assumes "\<forall>u \<in> set (suffixes xs). u \<noteq> [] \<longrightarrow> \<not> prefix u h \<and> \<not> prefix h u"
  shows "occurrences h (xs @ ys) = occurrences h ys"
  using assms
proof (induction xs)
  case Nil
  show ?case by simp
next
  case (Cons x xs)
  have "x # xs \<in> set (suffixes (x # xs))"
    by (simp add: in_set_suffixes)
  with Cons.prems have "\<not> prefix (x # xs) h" "\<not> prefix h (x # xs)"
    by blast+
  then have no: "\<not> prefix h ((x # xs) @ ys)"
    using prefix_append_disj by blast
  have "\<forall>u \<in> set (suffixes xs). u \<noteq> [] \<longrightarrow> \<not> prefix u h \<and> \<not> prefix h u"
    using Cons.prems by (simp add: in_set_suffixes suffix_Cons)
  from Cons.IH [OF this] have ih: "occurrences h (xs @ ys) = occurrences h ys" .
  have "occurrences h ((x # xs) @ ys)
      = (if prefix h ((x # xs) @ ys) then 1 else 0) + occurrences h (xs @ ys)"
    by simp
  with no ih show ?case
    by simp
qed

lemma occurrences_sep:
  assumes "c \<notin> set h" and "h \<noteq> []"
  shows "occurrences h (xs @ c # ys) = occurrences h xs + occurrences h ys"
proof (induction xs)
  case Nil
  from assms have "\<not> prefix h (c # ys)"
    by (cases h) auto
  then show ?case by simp
next
  case (Cons x xs)
  have "prefix h ((x # xs) @ c # ys) \<longleftrightarrow> prefix h (x # xs)"
  proof
    assume "prefix h ((x # xs) @ c # ys)"
    then consider "prefix h (x # xs)" | us where "h = (x # xs) @ us" "prefix us (c # ys)"
      unfolding prefix_append by blast
    then show "prefix h (x # xs)"
    proof cases
      case 1
      then show ?thesis .
    next
      case 2
      with assms(1) have "us = []"
        by (cases us) auto
      with 2 show ?thesis by simp
    qed
  next
    assume "prefix h (x # xs)"
    then show "prefix h ((x # xs) @ c # ys)"
      by (rule prefix_prefix)
  qed
  then have "occurrences h ((x # xs) @ c # ys)
      = (if prefix h (x # xs) then 1 else 0) + occurrences h (xs @ c # ys)"
    by simp
  with Cons.IH show ?case
    by simp
qed

lemma prefix_snoc_last: "prefix h (ys @ [c]) \<Longrightarrow> last h \<noteq> c \<Longrightarrow> prefix h ys"
  by (auto simp: prefix_snoc)

lemma occurrences_snoc:
  assumes "last h \<noteq> c" and "h \<noteq> []"
  shows "occurrences h (xs @ [c]) = occurrences h xs"
proof (induction xs)
  case Nil
  from assms have "\<not> prefix h [c]"
    by (cases h) auto
  then show ?case by simp
next
  case (Cons x xs)
  have "prefix h ((x # xs) @ [c]) \<longleftrightarrow> prefix h (x # xs)"
  proof
    assume "prefix h ((x # xs) @ [c])"
    then show "prefix h (x # xs)"
      using assms(1) by (rule prefix_snoc_last)
  next
    assume "prefix h (x # xs)"
    then show "prefix h ((x # xs) @ [c])"
      by (rule prefix_prefix)
  qed
  then have "occurrences h ((x # xs) @ [c])
      = (if prefix h (x # xs) then 1 else 0) + occurrences h (xs @ [c])"
    by simp
  with Cons.IH show ?case
    by simp
qed

lemma occurrences_sep2:
  assumes "d \<notin> set h" and "last h \<noteq> c" and "h \<noteq> []"
  shows "occurrences h (xs @ c # d # ys) = occurrences h xs + occurrences h ys"
proof -
  have "occurrences h ((xs @ [c]) @ d # ys) = occurrences h (xs @ [c]) + occurrences h ys"
    using assms(1,3) by (rule occurrences_sep)
  also have "occurrences h (xs @ [c]) = occurrences h xs"
    using assms(2,3) by (rule occurrences_snoc)
  finally show ?thesis by simp
qed

lemma prefix_str_replaceI:
  assumes "\<forall>u \<in> set (suffixes t). u \<noteq> [] \<longrightarrow> \<not> prefix u (a # old) \<and> \<not> prefix (a # old) u"
    and "prefix t s"
  shows "prefix t (str_replace (a # old) new s)"
  using assms
proof (induction s arbitrary: t)
  case Nil
  then show ?case by simp
next
  case (Cons c cs)
  show ?case
  proof (cases "t = []")
    case True
    then show ?thesis by simp
  next
    case False
    then have self: "\<not> prefix t (a # old) \<and> \<not> prefix (a # old) t"
      using Cons.prems(1) by (simp add: in_set_suffixes)
    have miss: "\<not> prefix (a # old) (c # cs)"
    proof
      assume "prefix (a # old) (c # cs)"
      with Cons.prems(2) have "prefix t (a # old) \<or> prefix (a # old) t"
        using prefix_same_cases by blast
      with self show False by blast
    qed
    from False Cons.prems(2) obtain t' where t: "t = c # t'" and p': "prefix t' cs"
      by (cases t) auto
    have "\<forall>u \<in> set (suffixes t'). u \<noteq> [] \<longrightarrow> \<not> prefix u (a # old) \<and> \<not> prefix (a # old) u"
      using Cons.prems(1) unfolding t by (simp add: in_set_suffixes suffix_Cons)
    from Cons.IH [OF this p'] show ?thesis
      unfolding t str_replace_miss [OF miss] by simp
  qed
qed

lemma occurrences_str_replace:
  assumes "\<forall>u \<in> set (suffixes h). u \<noteq> [] \<longrightarrow> \<not> prefix u (a # old) \<and> \<not> prefix (a # old) u"
    and "\<forall>u \<in> set (suffixes h). u \<noteq> [] \<longrightarrow> \<not> prefix u new \<and> \<not> prefix new u"
    and "\<forall>u \<in> set (suffixes (a # old)). u \<noteq> [] \<longrightarrow> \<not> prefix u h \<and> \<not> prefix h u"
    and "\<forall>u \<in> set (suffixes new). u \<noteq> [] \<longrightarrow> \<not> prefix u h \<and> \<not> prefix h u"
  shows "occurrences h (str_replace (a # old) new s) = occurrences h s"
proof (induction s rule: length_induct)
  case (1 s)
  show ?case
  proof (cases s)
    case Nil
    then show ?thesis by simp
  next
    case (Cons c cs)
    show ?thesis
    proof (cases "prefix (a # old) (c # cs)")
      case True
      let ?rest = "drop (length (a # old)) (c # cs)"
      have split: "c # cs = (a # old) @ ?rest"
        using True by (metis append_eq_conv_conj prefixE)
      have "length ?rest < length s"
        unfolding Cons by simp
      with "1.IH" have ih: "occurrences h (str_replace (a # old) new ?rest) = occurrences h ?rest"
        by blast
      have "occurrences h (str_replace (a # old) new s)
          = occurrences h (new @ str_replace (a # old) new ?rest)"
        unfolding Cons str_replace_hit [OF True] ..
      also have "\<dots> = occurrences h (str_replace (a # old) new ?rest)"
        using assms(4) by (rule occurrences_skip)
      also have "\<dots> = occurrences h ((a # old) @ ?rest)"
        unfolding ih using assms(3) by (rule occurrences_skip [symmetric])
      finally show ?thesis
        unfolding Cons split [symmetric] .
    next
      case False
      have "length cs < length s"
        unfolding Cons by simp
      with "1.IH" have ih: "occurrences h (str_replace (a # old) new cs) = occurrences h cs"
        by blast
      have "prefix h (str_replace (a # old) new (c # cs)) \<longleftrightarrow> prefix h (c # cs)"
        using prefix_str_replaceD [OF assms(2)] prefix_str_replaceI [OF assms(1)] by blast
      then have "prefix h (c # str_replace (a # old) new cs) \<longleftrightarrow> prefix h (c # cs)"
        unfolding str_replace_miss [OF False] .
      then show ?thesis
        unfolding Cons str_replace_miss [OF False] using ih by simp
    qed
  qed
qed

lemma codex_dir_renames_occurrences:
  "occurrences ''## Codex CLI Usage'' (codex_dir_renames content)
     = occurrences ''## Codex CLI Usage'' content"
proof -
  let ?h = "''## Codex CLI Usage''"
  let ?s1 = "str_replace ''templates/'' ''assets/'' content"
  let ?s2 = "str_replace ''docs/'' ''references/'' ?s1"
  let ?s3 = "str_replace ''`templates`'' ''`assets`'' ?s2"
  let ?s4 = "str_replace ''`docs`'' ''`references`'' ?s3"
  have "occurrences ?h ?s4 = occurrences ?h ?s3"
    by (rule occurrences_str_replace) simp_all
  also have "\<dots> = occurrences ?h ?s2"
    by (rule occurrences_str_replace) simp_all
  also have "\<dots> = occurrences ?h ?s1"
    by (rule occurrences_str_replace) simp_all
  also have "\<dots> = occurrences ?h content"
    by (rule occurrences_str_replace) simp_all
  finally show ?thesis
    unfolding codex_dir_renames_def Let_def .
qed

lemma opencode_section_occurrences:
  assumes "\<not> str_in ''## OpenCode CLI Usage'' skill_name"
  shows "occurrences ''## OpenCode CLI Usage'' (content @ opencode_section skill_name)
     = occurrences ''## OpenCode CLI Usage'' content + 1"
proof -
  from assms have "occurrences ''## OpenCode CLI Usage'' skill_name = 0"
    by (simp add: str_in_occurrences del: str_in.simps)
  then show ?thesis
    by (simp add: opencode_section_def occurrences_sep)
qed

lemma codex_section_occurrences:
  assumes "\<not> str_in ''## Codex CLI Usage'' skill_name"
  shows "occurrences ''## Codex CLI Usage'' (content @ codex_section skill_name)
     = occurrences ''## Codex CLI Usage'' content + 1"
proof -
  from assms have "occurrences ''## Codex CLI Usage'' skill_name = 0"
    by (simp add: str_in_occurrences del: str_in.simps)
  then show ?thesis
    by (simp add: codex_section_def occurrences_sep)
qed

lemma gemini_section_occurrences:
  assumes "\<not> str_in ''## Gemini CLI Usage'' skill_name"
  shows "occurrences ''## Gemini CLI Usage'' (content @ gemini_section skill_name)
     = occurrences ''## Gemini CLI Usage'' content + 1"
proof -
  from assms have "occurrences ''## Gemini CLI Usage'' skill_name = 0"
    by (simp add: str_in_occurrences del: str_in.simps)
  then show ?thesis
    by (simp add: gemini_section_def occurrences_sep occurrences_sep2)
qed

lemma append_usage_once:
  assumes "h \<noteq> []" and "occurrences h content \<le> 1"
    and "occurrences h (content @ section) = occurrences h content + 1"
  shows "occurrences h (if \<not> str_in h content then content @ section else content) = 1"
proof (cases "str_in h content")
  case True
  with assms(1) have "0 < occurrences h content"
    by (simp add: str_in_occurrences del: str_in.simps)
  with assms(2) True show ?thesis
    by simp
next
  case False
  with assms(1) have "occurrences h content = 0"
    by (simp add: str_in_occurrences del: str_in.simps)
  with assms(3) False show ?thesis
    by simp
qed

lemma transform_skill_md_once:
  assumes "occurrences (usage_heading a) (common content) \<le> 1"
    and "\<not> str_in (usage_heading a) skill_name"
  shows "occurrences (usage_heading a) (transform_skill_md a common content skill_name) = 1"
proof (cases a)
  case OpenCode
  have "occurrences ''## OpenCode CLI Usage''
      (if \<not> str_in ''## OpenCode CLI Usage'' (common content)
       then common content @ opencode_section skill_name else common content) = 1"
  proof (rule append_usage_once)
    show "''## OpenCode CLI Usage'' \<noteq> []" by simp
    show "occurrences ''## OpenCode CLI Usage'' (common content) \<le> 1"
      using assms(1) unfolding OpenCode usage_heading.simps .
    show "occurrences ''## OpenCode CLI Usage'' (common content @ opencode_section skill_name)
        = occurrences ''## OpenCode CLI Usage'' (common content) + 1"
      using assms(2) unfolding OpenCode usage_heading.simps by (rule opencode_section_occurrences)
  qed
  then show ?thesis
    unfolding OpenCode usage_heading.simps transform_skill_md.simps
      opencode_transform_skill_md_def Let_def .
next
  case Codex
  let ?body = "codex_dir_renames (common content)"
  have "occurrences ''## Codex CLI Usage''
      (if \<not> str_in ''## Codex CLI Usage'' ?body
       then ?body @ codex_section skill_name else ?body) = 1"
  proof (rule append_usage_once)
    show "''## Codex CLI Usage'' \<noteq> []" by simp
    show "occurrences ''## Codex CLI Usage'' ?body \<le> 1"
      using assms(1) unfolding Codex usage_heading.simps codex_dir_renames_occurrences .
    show "occurrences ''## Codex CLI Usage'' (?body @ codex_section skill_name)
        = occurrences ''## Codex CLI Usage'' ?body + 1"
      using assms(2) unfolding Codex usage_heading.simps by (rule codex_section_occurrences)
  qed
  then show ?thesis
    unfolding Codex usage_heading.simps transform_skill_md.simps
      codex_transform_skill_md_def Let_def .
next
  case Gemini
  have "occurrences ''## Gemini CLI Usage''
      (if \<not> str_in ''## Gemini CLI Usage'' (common content)
       then common content @ gemini_section skill_name else common content) = 1"
  proof (rule append_usage_once)
    show "''## Gemini CLI Usage'' \<noteq> []" by simp
    show "occurrences ''## Gemini CLI Usage'' (common content) \<le> 1"
      using assms(1) unfolding Gemini usage_heading.simps .
    show "occurrences ''## Gemini CLI Usage'' (common content @ gemini_section skill_name)
        = occurrences ''## Gemini CLI Usage'' (common content) + 1"
      using assms(2) unfolding Gemini usage_heading.simps by (rule gemini_section_occurrences)
  qed
  then show ?thesis
    unfolding Gemini usage_heading.simps transform_skill_md.simps
      gemini_transform_skill_md_def Let_def .
qed

text \<open>
  Claim C4 fails as stated: the guard only asks whether the heading is present. A
  manifest that already has the heading twice keeps both through two runs, and a skill
  name that contains the heading brings it into the appended section several times.
  Both are shown for the Gemini adapter with a common transform that leaves the text
  as it is.
\<close>

theorem usage_heading_twice:
  "occurrences ''## Gemini CLI Usage''
     (transform_skill_md Gemini (\<lambda>content. content)
        (transform_skill_md Gemini (\<lambda>content. content)
           ''## Gemini CLI Usage\<newline>## Gemini CLI Usage'' ''s'') ''s'') = 2
   \<and> occurrences ''## Gemini CLI Usage''
     (transform_skill_md Gemini (\<lambda>content. content)
        (transform_skill_md Gemini (\<lambda>content. content) [] ''## Gemini CLI Usage'')
        ''## Gemini CLI Usage'') = 5"
  by (simp add: gemini_transform_skill_md_def gemini_section_def)

text \<open>
  Claim C4, amended. Let the common transform never turn a text with at most one
  usage heading into a text with more, let the manifest have the heading at most once,
  and let the skill name not contain it. Then two runs of \<open>transform_skill_md\<close>
  give a text with exactly one usage heading.
\<close>

theorem usage_section_once:
  assumes "\<forall>t. occurrences (usage_heading a) t \<le> 1 \<longrightarrow> occurrences (usage_heading a) (common t) \<le> 1"
    and "occurrences (usage_heading a) content \<le> 1"
    and "\<not> str_in (usage_heading a) skill_name"
  shows "occurrences (usage_heading a)
     (transform_skill_md a common (transform_skill_md a common content skill_name) skill_name) = 1"
proof -
  let ?once = "transform_skill_md a common content skill_name"
  from assms(1,2) have "occurrences (usage_heading a) (common content) \<le> 1"
    by blast
  then have "occurrences (usage_heading a) ?once = 1"
    using assms(3) by (rule transform_skill_md_once [of a common content skill_name])
  then have "occurrences (usage_heading a) ?once \<le> 1"
    by simp
  with assms(1) have "occurrences (usage_heading a) (common ?once) \<le> 1"
    by blast
  then show ?thesis
    using assms(3) by (rule transform_skill_md_once [of a common ?once skill_name])
qed

theorem usage_section_once_witness:
  "occurrences ''## Codex CLI Usage''
     (transform_skill_md Codex (\<lambda>content. content)
        (transform_skill_md Codex (\<lambda>content. content)
           ''Uses templates/ and docs/ for output.'' ''sf-apex'') ''sf-apex'') = 1"
proof -
  have c: "\<forall>t. occurrences (usage_heading Codex) t \<le> 1
      \<longrightarrow> occurrences (usage_heading Codex) ((\<lambda>content. content) t) \<le> 1"
    by simp
  have m: "occurrences (usage_heading Codex) ''Uses templates/ and docs/ for output.'' \<le> 1"
    by simp
  have n: "\<not> str_in (usage_heading Codex) ''sf-apex''"
    by simp
  show ?thesis
    using usage_section_once [OF c m n] by simp
qed

section \<open>Occurrences under replacement\<close>

lemma prefix_str_replace_sharedI:
  assumes "\<forall>u \<in> set (suffixes t). u \<noteq> [] \<and> (prefix u (a # old) \<or> prefix (a # old) u) \<longrightarrow> prefix u new"
    and "prefix t s"
  shows "prefix t (str_replace (a # old) new s)"
  using assms
proof (induction s arbitrary: t)
  case Nil
  then show ?case by simp
next
  case (Cons c cs)
  show ?case
  proof (cases "t = []")
    case True
    then show ?thesis by simp
  next
    case False
    then have self: "t \<in> set (suffixes t)" "t \<noteq> []"
      by (simp_all add: in_set_suffixes)
    show ?thesis
    proof (cases "prefix (a # old) (c # cs)")
      case True
      with Cons.prems(2) have "prefix t (a # old) \<or> prefix (a # old) t"
        using prefix_same_cases by blast
      with Cons.prems(1) self have "prefix t new"
        by blast
      then show ?thesis
        unfolding str_replace_hit [OF True] by (rule prefix_prefix)
    next
      case no: False
      from False Cons.prems(2) obtain t' where t: "t = c # t'" and p': "prefix t' cs"
        by (cases t) auto
      have "\<forall>u \<in> set (suffixes t'). u \<noteq> [] \<and> (prefix u (a # old) \<or> prefix (a # old) u)
          \<longrightarrow> prefix u new"
        using Cons.prems(1) unfolding t by (simp add: in_set_suffixes suffix_Cons)
      from Cons.IH [OF this p'] show ?thesis
        unfolding t str_replace_miss [OF no] by simp
    qed
  qed
qed

lemma prefix_str_replace_shared_iff:
  assumes "\<forall>u \<in> set (suffixes t). u \<noteq> [] \<and> (prefix u new \<or> prefix new u) \<longrightarrow> prefix u (a # old)"
    and "\<forall>u \<in> set (suffixes t). u \<noteq> [] \<and> (prefix u (a # old) \<or> prefix (a # old) u) \<longrightarrow> prefix u new"
  shows "prefix t (str_replace (a # old) new s) \<longleftrightarrow> prefix t s"
  using prefix_str_replace_sharedD [OF assms(1)] prefix_str_replace_sharedI [OF assms(2)]
  by blast

lemma prefix_str_replace_miss_iff:
  assumes "\<forall>u \<in> set (suffixes (tl h)). u \<noteq> [] \<and> (prefix u new \<or> prefix new u) \<longrightarrow> prefix u (a # old)"
    and "\<forall>u \<in> set (suffixes (tl h)). u \<noteq> [] \<and> (prefix u (a # old) \<or> prefix (a # old) u) \<longrightarrow> prefix u new"
  shows "prefix h (c # str_replace (a # old) new cs) \<longleftrightarrow> prefix h (c # cs)"
proof (cases h)
  case Nil
  then show ?thesis by simp
next
  case (Cons c' h')
  from assms have "prefix h' (str_replace (a # old) new cs) \<longleftrightarrow> prefix h' cs"
    unfolding Cons list.sel by (rule prefix_str_replace_shared_iff)
  then show ?thesis
    unfolding Cons by simp
qed

lemma occurrences_str_replace_shared:
  assumes "\<forall>u \<in> set (suffixes (tl h)). u \<noteq> [] \<and> (prefix u new \<or> prefix new u) \<longrightarrow> prefix u (a # old)"
    and "\<forall>u \<in> set (suffixes (tl h)). u \<noteq> [] \<and> (prefix u (a # old) \<or> prefix (a # old) u) \<longrightarrow> prefix u new"
    and "\<And>y. occurrences h (new @ y) = jn y + occurrences h y"
    and "\<And>y. occurrences h ((a # old) @ y) = jn y + occurrences h y"
    and "\<And>y. jn (str_replace (a # old) new y) = jn y"
  shows "occurrences h (str_replace (a # old) new s) = occurrences h s"
proof (induction s rule: length_induct)
  case (1 s)
  show ?case
  proof (cases s)
    case Nil
    then show ?thesis by simp
  next
    case (Cons c cs)
    show ?thesis
    proof (cases "prefix (a # old) (c # cs)")
      case True
      let ?rest = "drop (length (a # old)) (c # cs)"
      have split: "c # cs = (a # old) @ ?rest"
        using True by (metis append_eq_conv_conj prefixE)
      have "length ?rest < length s"
        unfolding Cons by simp
      with "1.IH" have ih: "occurrences h (str_replace (a # old) new ?rest) = occurrences h ?rest"
        by blast
      have "occurrences h (str_replace (a # old) new s)
          = occurrences h (new @ str_replace (a # old) new ?rest)"
        unfolding Cons str_replace_hit [OF True] ..
      also have "\<dots> = jn ?rest + occurrences h ?rest"
        unfolding assms(3) assms(5) ih ..
      also have "\<dots> = occurrences h ((a # old) @ ?rest)"
        unfolding assms(4) ..
      finally show ?thesis
        unfolding Cons split [symmetric] .
    next
      case False
      have "length cs < length s"
        unfolding Cons by simp
      with "1.IH" have ih: "occurrences h (str_replace (a # old) new cs) = occurrences h cs"
        by blast
      have "prefix h (c # str_replace (a # old) new cs) \<longleftrightarrow> prefix h (c # cs)"
        using assms(1,2) by (rule prefix_str_replace_miss_iff)
      then show ?thesis
        unfolding Cons str_replace_miss [OF False] using ih by simp
    qed
  qed
qed

lemma occurrences_str_replace_new:
  assumes "\<forall>u \<in> set (suffixes (tl new)). u \<noteq> [] \<and> (prefix u new \<or> prefix new u) \<longrightarrow> prefix u (a # old)"
    and "\<forall>u \<in> set (suffixes (tl new)). u \<noteq> [] \<and> (prefix u (a # old) \<or> prefix (a # old) u) \<longrightarrow> prefix u new"
    and "\<And>y. occurrences new (new @ y) = 1 + jn y + occurrences new y"
    and "\<And>y. occurrences new ((a # old) @ y) = jn y + occurrences new y"
    and "\<And>y. jn (str_replace (a # old) new y) = jn y"
    and "\<forall>y. sublist ((a # old) @ y) s
        \<longrightarrow> occurrences (a # old) ((a # old) @ y) = 1 + occurrences (a # old) y"
  shows "occurrences new (str_replace (a # old) new s)
      = occurrences new s + occurrences (a # old) s"
  using assms(6)
proof (induction s rule: length_induct)
  case (1 s)
  show ?case
  proof (cases s)
    case Nil
    then show ?thesis by simp
  next
    case (Cons c cs)
    show ?thesis
    proof (cases "prefix (a # old) (c # cs)")
      case True
      let ?rest = "drop (length (a # old)) (c # cs)"
      have split: "c # cs = (a # old) @ ?rest"
        using True by (metis append_eq_conv_conj prefixE)
      have "sublist ?rest s"
        unfolding Cons by (rule sublist_drop)
      with "1.prems" have "\<forall>y. sublist ((a # old) @ y) ?rest
          \<longrightarrow> occurrences (a # old) ((a # old) @ y) = 1 + occurrences (a # old) y"
        using sublist_order.order_trans by blast
      moreover have "length ?rest < length s"
        unfolding Cons by simp
      ultimately have ih: "occurrences new (str_replace (a # old) new ?rest)
          = occurrences new ?rest + occurrences (a # old) ?rest"
        using "1.IH" by blast
      have "sublist ((a # old) @ ?rest) s"
        unfolding Cons split [symmetric] by simp
      with "1.prems" have one: "occurrences (a # old) ((a # old) @ ?rest)
          = 1 + occurrences (a # old) ?rest"
        by blast
      have "occurrences new (str_replace (a # old) new s)
          = occurrences new (new @ str_replace (a # old) new ?rest)"
        unfolding Cons str_replace_hit [OF True] ..
      also have "\<dots> = 1 + jn ?rest + (occurrences new ?rest + occurrences (a # old) ?rest)"
        unfolding assms(3) assms(5) ih ..
      also have "\<dots> = occurrences new ((a # old) @ ?rest)
          + occurrences (a # old) ((a # old) @ ?rest)"
        unfolding assms(4) one by simp
      finally show ?thesis
        unfolding Cons split [symmetric] .
    next
      case False
      have "sublist cs s"
        unfolding Cons by (simp add: sublist_Cons_right)
      with "1.prems" have "\<forall>y. sublist ((a # old) @ y) cs
          \<longrightarrow> occurrences (a # old) ((a # old) @ y) = 1 + occurrences (a # old) y"
        using sublist_order.order_trans by blast
      moreover have "length cs < length s"
        unfolding Cons by simp
      ultimately have ih: "occurrences new (str_replace (a # old) new cs)
          = occurrences new cs + occurrences (a # old) cs"
        using "1.IH" by blast
      have "prefix new (c # str_replace (a # old) new cs) \<longleftrightarrow> prefix new (c # cs)"
        using assms(1,2) by (rule prefix_str_replace_miss_iff)
      then show ?thesis
        unfolding Cons str_replace_miss [OF False] using ih False by simp
    qed
  qed
qed

lemma occurrences_old_once:
  assumes "\<not> sublist ((a # old) @ t) s"
    and "\<And>y. \<not> prefix t y \<Longrightarrow> occurrences (a # old) ((a # old) @ y) = 1 + occurrences (a # old) y"
  shows "\<forall>y. sublist ((a # old) @ y) s
      \<longrightarrow> occurrences (a # old) ((a # old) @ y) = 1 + occurrences (a # old) y"
proof (intro allI impI)
  fix y
  assume sub: "sublist ((a # old) @ y) s"
  have "\<not> prefix t y"
  proof
    assume "prefix t y"
    then have "prefix ((a # old) @ t) ((a # old) @ y)"
      by (simp only: same_prefix_prefix)
    then have "sublist ((a # old) @ t) ((a # old) @ y)"
      by (rule prefix_imp_sublist)
    with sub assms(1) show False
      using sublist_order.order_trans by blast
  qed
  then show "occurrences (a # old) ((a # old) @ y) = 1 + occurrences (a # old) y"
    by (rule assms(2))
qed

section \<open>How often the Codex renames produce each form\<close>

lemma codex_dir_renames_slash_occurrences:
  "occurrences ''assets/'' (codex_dir_renames content)
     = occurrences ''assets/'' content + occurrences ''templates/'' content"
  "occurrences ''references/'' (codex_dir_renames content)
     = occurrences ''references/'' content + occurrences ''docs/'' content"
proof -
  let ?s1 = "str_replace ''templates/'' ''assets/'' content"
  let ?s2 = "str_replace ''docs/'' ''references/'' ?s1"
  let ?s3 = "str_replace ''`templates`'' ''`assets`'' ?s2"
  let ?s4 = "str_replace ''`docs`'' ''`references`'' ?s3"
  have "occurrences ''assets/'' ?s4 = occurrences ''assets/'' ?s3"
    by (rule occurrences_str_replace) simp_all
  also have "\<dots> = occurrences ''assets/'' ?s2"
    by (rule occurrences_str_replace) simp_all
  also have "\<dots> = occurrences ''assets/'' ?s1"
    by (rule occurrences_str_replace) simp_all
  also have "\<dots> = occurrences ''assets/'' content + occurrences ''templates/'' content"
    by (rule occurrences_str_replace_new [where jn = "\<lambda>y. 0"]) simp_all
  finally show "occurrences ''assets/'' (codex_dir_renames content)
     = occurrences ''assets/'' content + occurrences ''templates/'' content"
    unfolding codex_dir_renames_def Let_def .
  have r1: "occurrences ''references/'' ?s1 = occurrences ''references/'' content"
    by (rule occurrences_str_replace) simp_all
  have d1: "occurrences ''docs/'' ?s1 = occurrences ''docs/'' content"
    by (rule occurrences_str_replace) simp_all
  have "occurrences ''references/'' ?s4 = occurrences ''references/'' ?s3"
    by (rule occurrences_str_replace) simp_all
  also have "\<dots> = occurrences ''references/'' ?s2"
    by (rule occurrences_str_replace) simp_all
  also have "\<dots> = occurrences ''references/'' ?s1 + occurrences ''docs/'' ?s1"
    by (rule occurrences_str_replace_new [where jn = "\<lambda>y. 0"]) simp_all
  finally show "occurrences ''references/'' (codex_dir_renames content)
     = occurrences ''references/'' content + occurrences ''docs/'' content"
    unfolding codex_dir_renames_def Let_def r1 d1 .
qed

lemma codex_dir_renames_backquoted_occurrences:
  "\<not> sublist ''`templates`templates`'' content \<Longrightarrow>
     occurrences ''`assets`'' (codex_dir_renames content)
       = occurrences ''`assets`'' content + occurrences ''`templates`'' content"
  "\<not> sublist ''`docs`docs`'' content \<Longrightarrow>
     occurrences ''`references`'' (codex_dir_renames content)
       = occurrences ''`references`'' content + occurrences ''`docs`'' content"
proof -
  let ?r1 = "str_replace ''templates/'' ''assets/''"
  let ?r2 = "str_replace ''docs/'' ''references/''"
  let ?r3 = "str_replace ''`templates`'' ''`assets`''"
  let ?r4 = "str_replace ''`docs`'' ''`references`''"
  let ?s1 = "?r1 content"
  let ?s2 = "?r2 ?s1"
  let ?s3 = "?r3 ?s2"
  let ?s4 = "?r4 ?s3"
  {
    assume t0: "\<not> sublist ''`templates`templates`'' content"
    have t1: "\<not> sublist ''`templates`templates`'' ?s1"
      by (rule str_replace_free) (simp_all add: t0)
    have t2: "\<not> sublist (''`templates`'' @ ''templates`'') ?s2"
      using str_replace_free [of "''`templates`templates`''" "''references/''" "CHR ''d''" "''ocs/''" ?s1]
      by (simp add: t1)
    have a1: "occurrences ''`assets`'' ?s1 = occurrences ''`assets`'' content"
      by (rule occurrences_str_replace) simp_all
    have a2: "occurrences ''`assets`'' ?s2 = occurrences ''`assets`'' ?s1"
      by (rule occurrences_str_replace) simp_all
    have b1: "occurrences ''`templates`'' ?s1 = occurrences ''`templates`'' content"
      by (rule occurrences_str_replace) simp_all
    have b2: "occurrences ''`templates`'' ?s2 = occurrences ''`templates`'' ?s1"
      by (rule occurrences_str_replace) simp_all
    have j3: "(if prefix ''assets`'' (?r3 y) then 1 else 0) = (if prefix ''assets`'' y then 1 else (0::nat))" for y
      using prefix_str_replace_shared_iff [of "''assets`''" "''`assets`''" "CHR 0x60" "''templates`''" y]
      by simp
    have j4: "(if prefix ''assets`'' (?r4 y) then 1 else 0) = (if prefix ''assets`'' y then 1 else (0::nat))" for y
      using prefix_str_replace_shared_iff [of "''assets`''" "''`references`''" "CHR 0x60" "''docs`''" y]
      by simp
    have once: "\<forall>y. sublist (''`templates`'' @ y) ?s2
        \<longrightarrow> occurrences ''`templates`'' (''`templates`'' @ y) = 1 + occurrences ''`templates`'' y"
      using t2 by (rule occurrences_old_once) simp
    have a3: "occurrences ''`assets`'' ?s3
        = occurrences ''`assets`'' ?s2 + occurrences ''`templates`'' ?s2"
      using once
      by (intro occurrences_str_replace_new
          [where jn = "\<lambda>y. if prefix ''assets`'' y then 1 else 0"] j3) simp_all
    have a4: "occurrences ''`assets`'' ?s4 = occurrences ''`assets`'' ?s3"
      by (intro occurrences_str_replace_shared
          [where jn = "\<lambda>y. if prefix ''assets`'' y then 1 else 0"] j4) simp_all
    show "occurrences ''`assets`'' (codex_dir_renames content)
       = occurrences ''`assets`'' content + occurrences ''`templates`'' content"
      unfolding codex_dir_renames_def Let_def a4 a3 a2 a1 b2 b1 ..
  }
  {
    assume d0: "\<not> sublist ''`docs`docs`'' content"
    have d1: "\<not> sublist ''`docs`docs`'' ?s1"
      by (rule str_replace_free) (simp_all add: d0)
    have d2: "\<not> sublist ''`docs`docs`'' ?s2"
      by (rule str_replace_free) (simp_all add: d1)
    have "sublist ''`docs`docs`'' (''`templates`'' @ tl ''`docs`docs`'')"
      by (simp add: sublist_code)
    with d2 have d2': "\<not> sublist (''`templates`'' @ tl ''`docs`docs`'') ?s2"
      using sublist_order.order_trans by blast
    have d3: "\<not> sublist (''`docs`'' @ ''docs`'') ?s3"
      using str_replace_free_shared [of "''`docs`docs`''" "''`assets`''" "CHR 0x60" "''templates`''" ?s2]
        d2 d2'
      by simp
    have r1: "occurrences ''`references`'' ?s1 = occurrences ''`references`'' content"
      by (rule occurrences_str_replace) simp_all
    have r2: "occurrences ''`references`'' ?s2 = occurrences ''`references`'' ?s1"
      by (rule occurrences_str_replace) simp_all
    have b1: "occurrences ''`docs`'' ?s1 = occurrences ''`docs`'' content"
      by (rule occurrences_str_replace) simp_all
    have b2: "occurrences ''`docs`'' ?s2 = occurrences ''`docs`'' ?s1"
      by (rule occurrences_str_replace) simp_all
    have jr3: "(if prefix ''references`'' (?r3 y) then 1 else 0)
        = (if prefix ''references`'' y then 1 else (0::nat))" for y
      using prefix_str_replace_shared_iff [of "''references`''" "''`assets`''" "CHR 0x60" "''templates`''" y]
      by simp
    have jd3: "(if prefix ''docs`'' (?r3 y) then 1 else 0)
        = (if prefix ''docs`'' y then 1 else (0::nat))" for y
      using prefix_str_replace_shared_iff [of "''docs`''" "''`assets`''" "CHR 0x60" "''templates`''" y]
      by simp
    have jr4: "(if prefix ''references`'' (?r4 y) then 1 else 0)
        = (if prefix ''references`'' y then 1 else (0::nat))" for y
      using prefix_str_replace_shared_iff [of "''references`''" "''`references`''" "CHR 0x60" "''docs`''" y]
      by simp
    have r3: "occurrences ''`references`'' ?s3 = occurrences ''`references`'' ?s2"
      by (intro occurrences_str_replace_shared
          [where jn = "\<lambda>y. if prefix ''references`'' y then 1 else 0"] jr3) simp_all
    have b3: "occurrences ''`docs`'' ?s3 = occurrences ''`docs`'' ?s2"
      by (intro occurrences_str_replace_shared
          [where jn = "\<lambda>y. if prefix ''docs`'' y then 1 else 0"] jd3) simp_all
    have once: "\<forall>y. sublist (''`docs`'' @ y) ?s3
        \<longrightarrow> occurrences ''`docs`'' (''`docs`'' @ y) = 1 + occurrences ''`docs`'' y"
      using d3 by (rule occurrences_old_once) simp
    have r4: "occurrences ''`references`'' ?s4
        = occurrences ''`references`'' ?s3 + occurrences ''`docs`'' ?s3"
      using once
      by (intro occurrences_str_replace_new
          [where jn = "\<lambda>y. if prefix ''references`'' y then 1 else 0"] jr4) simp_all
    show "occurrences ''`references`'' (codex_dir_renames content)
       = occurrences ''`references`'' content + occurrences ''`docs`'' content"
      unfolding codex_dir_renames_def Let_def r4 r3 b3 r2 r1 b2 b1 ..
  }
qed

section \<open>Completeness of the Codex renames\<close>

text \<open>
  Claim C3 fails as stated, in two ways, each shown with a common transform that leaves
  the text as it is. The usage section that the adapter appends names
  \<open>`templates/`\<close> and \<open>`docs/`\<close> itself, so they are in the output for the empty
  manifest. And of two quoted names that share a backquote only the first is found by
  the scan: \<open>`templates`templates`\<close> holds \<open>`templates`\<close> twice, the renamed text
  holds \<open>`assets`\<close> once and still holds \<open>`templates`\<close>.
\<close>

theorem codex_renames_incomplete:
  "str_in ''templates/'' (codex_transform_skill_md (\<lambda>content. content) [] ''s'')
   \<and> str_in ''docs/'' (codex_transform_skill_md (\<lambda>content. content) [] ''s'')
   \<and> codex_dir_renames ''`templates`templates`'' = ''`assets`templates`''
   \<and> occurrences ''`templates`'' ''`templates`templates`'' = 2
   \<and> occurrences ''`assets`'' (codex_dir_renames ''`templates`templates`'') = 1
   \<and> str_in ''`templates`'' (codex_dir_renames ''`templates`templates`'')
   \<and> codex_dir_renames ''`docs`docs`'' = ''`references`docs`''
   \<and> str_in ''`docs`'' (codex_dir_renames ''`docs`docs`'')"
  by (simp add: codex_transform_skill_md_def codex_dir_renames_def codex_section_def)

text \<open>
  Claim C3, amended. Let \<open>t\<close> be the common-transformed content and \<open>b\<close> the text
  that the four replacements produce from \<open>t\<close>.
  \<^item> \<open>b\<close> contains neither \<open>templates/\<close> nor \<open>docs/\<close>, and every occurrence has
    become its equivalent: \<open>b\<close> holds \<open>assets/\<close> as often as \<open>t\<close> holds \<open>assets/\<close>
    and \<open>templates/\<close> together, and \<open>references/\<close> as often as \<open>t\<close> holds
    \<open>references/\<close> and \<open>docs/\<close> together.
  \<^item> If \<open>t\<close> does not contain \<open>`templates`templates`\<close>, the same holds for
    \<open>`templates`\<close> and \<open>`assets`\<close>; if \<open>t\<close> does not contain \<open>`docs`docs`\<close>, the
    same holds for \<open>`docs`\<close> and \<open>`references`\<close>.
  \<^item> The renaming of \<open>x @ templates/ @ y\<close> is the renaming of \<open>x\<close>, then
    \<open>assets/\<close>, then the renaming of \<open>y\<close>, and likewise for \<open>docs/\<close> and
    \<open>references/\<close>.
  \<^item> The same holds for \<open>`templates`\<close> and \<open>`docs`\<close> where the quoted name shares no
    backquote with a neighbour: \<open>x\<close> ends with neither \<open>`templates\<close> nor \<open>`docs\<close>,
    and \<open>y\<close> does not start with \<open>docs`\<close> (for \<open>`templates`\<close>) or with
    \<open>templates`\<close> (for \<open>`docs`\<close>).
  \<^item> The output of \<open>transform_skill_md\<close> is \<open>b\<close>, followed by the usage section
    exactly when the heading is not in \<open>b\<close>.
\<close>

theorem codex_renames_complete:
  "\<not> str_in ''templates/'' (codex_dir_renames (common content))
   \<and> \<not> str_in ''docs/'' (codex_dir_renames (common content))
   \<and> occurrences ''assets/'' (codex_dir_renames (common content))
        = occurrences ''assets/'' (common content) + occurrences ''templates/'' (common content)
   \<and> occurrences ''references/'' (codex_dir_renames (common content))
        = occurrences ''references/'' (common content) + occurrences ''docs/'' (common content)
   \<and> (\<not> str_in ''`templates`templates`'' (common content)
        \<longrightarrow> \<not> str_in ''`templates`'' (codex_dir_renames (common content))
            \<and> occurrences ''`assets`'' (codex_dir_renames (common content))
                = occurrences ''`assets`'' (common content)
                  + occurrences ''`templates`'' (common content))
   \<and> (\<not> str_in ''`docs`docs`'' (common content)
        \<longrightarrow> \<not> str_in ''`docs`'' (codex_dir_renames (common content))
            \<and> occurrences ''`references`'' (codex_dir_renames (common content))
                = occurrences ''`references`'' (common content)
                  + occurrences ''`docs`'' (common content))
   \<and> codex_dir_renames (x @ ''templates/'' @ y)
        = codex_dir_renames x @ ''assets/'' @ codex_dir_renames y
   \<and> codex_dir_renames (x @ ''docs/'' @ y)
        = codex_dir_renames x @ ''references/'' @ codex_dir_renames y
   \<and> (\<not> suffix ''`templates'' x \<and> \<not> suffix ''`docs'' x \<and> \<not> prefix ''docs`'' y
        \<longrightarrow> codex_dir_renames (x @ ''`templates`'' @ y)
              = codex_dir_renames x @ ''`assets`'' @ codex_dir_renames y)
   \<and> (\<not> suffix ''`templates'' x \<and> \<not> suffix ''`docs'' x \<and> \<not> prefix ''templates`'' y
        \<longrightarrow> codex_dir_renames (x @ ''`docs`'' @ y)
              = codex_dir_renames x @ ''`references`'' @ codex_dir_renames y)
   \<and> codex_transform_skill_md common content skill_name
        = (if \<not> str_in ''## Codex CLI Usage'' (codex_dir_renames (common content))
           then codex_dir_renames (common content) @ codex_section skill_name
           else codex_dir_renames (common content))"
proof -
  have slash: "\<not> str_in ''templates/'' (codex_dir_renames (common content))"
    "\<not> str_in ''docs/'' (codex_dir_renames (common content))"
    unfolding str_in_sublist by (rule codex_dir_renames_free)+
  have quoted: "\<not> str_in ''`templates`templates`'' (common content)
        \<longrightarrow> \<not> str_in ''`templates`'' (codex_dir_renames (common content))
            \<and> occurrences ''`assets`'' (codex_dir_renames (common content))
                = occurrences ''`assets`'' (common content)
                  + occurrences ''`templates`'' (common content)"
    "\<not> str_in ''`docs`docs`'' (common content)
        \<longrightarrow> \<not> str_in ''`docs`'' (codex_dir_renames (common content))
            \<and> occurrences ''`references`'' (codex_dir_renames (common content))
                = occurrences ''`references`'' (common content)
                  + occurrences ''`docs`'' (common content)"
    unfolding str_in_sublist
    using codex_dir_renames_backquoted_free [of "common content"]
      codex_dir_renames_backquoted_occurrences [of "common content"]
    by blast+
  have each_quoted: "\<not> suffix ''`templates'' x \<and> \<not> suffix ''`docs'' x \<and> \<not> prefix ''docs`'' y
        \<longrightarrow> codex_dir_renames (x @ ''`templates`'' @ y)
              = codex_dir_renames x @ ''`assets`'' @ codex_dir_renames y"
    "\<not> suffix ''`templates'' x \<and> \<not> suffix ''`docs'' x \<and> \<not> prefix ''templates`'' y
        \<longrightarrow> codex_dir_renames (x @ ''`docs`'' @ y)
              = codex_dir_renames x @ ''`references`'' @ codex_dir_renames y"
    using codex_dir_renames_backquoted [of x y] by blast+
  have out: "codex_transform_skill_md common content skill_name
        = (if \<not> str_in ''## Codex CLI Usage'' (codex_dir_renames (common content))
           then codex_dir_renames (common content) @ codex_section skill_name
           else codex_dir_renames (common content))"
    unfolding codex_transform_skill_md_def Let_def ..
  from slash codex_dir_renames_slash_occurrences [of "common content"] quoted
    codex_dir_renames_slash [of x y] each_quoted out
  show ?thesis
    by (intro conjI)
qed

theorem codex_renames_complete_witness:
  "\<not> str_in ''`templates`'' (codex_dir_renames ''Copy `templates` and `docs`.'')
   \<and> occurrences ''`assets`'' (codex_dir_renames ''Copy `templates` and `docs`.'') = 1
   \<and> \<not> str_in ''`docs`'' (codex_dir_renames ''Copy `templates` and `docs`.'')
   \<and> occurrences ''`references`'' (codex_dir_renames ''Copy `templates` and `docs`.'') = 1
   \<and> codex_dir_renames (''Copy '' @ ''`templates`'' @ '' and `docs`.'')
        = codex_dir_renames ''Copy '' @ ''`assets`'' @ codex_dir_renames '' and `docs`.''
   \<and> codex_dir_renames (''Copy `templates` and '' @ ''`docs`'' @ ''.'')
        = codex_dir_renames ''Copy `templates` and '' @ ''`references`'' @ codex_dir_renames ''.''"
proof -
  let ?c = "''Copy `templates` and `docs`.''"
  note first = codex_renames_complete
    [of "\<lambda>content. content" ?c "''Copy ''" "'' and `docs`.''" "''s''"]
  note second = codex_renames_complete
    [of "\<lambda>content. content" ?c "''Copy `templates` and ''" "''.''" "''s''"]
  have h1: "\<not> str_in ''`templates`templates`'' ?c"
    by simp
  have h2: "\<not> str_in ''`docs`docs`'' ?c"
    by simp
  have h3: "\<not> suffix ''`templates'' ''Copy '' \<and> \<not> suffix ''`docs'' ''Copy ''
       \<and> \<not> prefix ''docs`'' '' and `docs`.''"
    by (simp add: suffix_to_prefix)
  have h4: "\<not> suffix ''`templates'' ''Copy `templates` and ''
       \<and> \<not> suffix ''`docs'' ''Copy `templates` and ''
       \<and> \<not> prefix ''templates`'' ''.''"
    by (simp add: suffix_to_prefix)
  from first h1 have c1: "\<not> str_in ''`templates`'' (codex_dir_renames ?c)"
    and "occurrences ''`assets`'' (codex_dir_renames ?c)
        = occurrences ''`assets`'' ?c + occurrences ''`templates`'' ?c"
    by blast+
  then have n1: "occurrences ''`assets`'' (codex_dir_renames ?c) = 1"
    by simp
  from first h2 have c2: "\<not> str_in ''`docs`'' (codex_dir_renames ?c)"
    and "occurrences ''`references`'' (codex_dir_renames ?c)
        = occurrences ''`references`'' ?c + occurrences ''`docs`'' ?c"
    by blast+
  then have n2: "occurrences ''`references`'' (codex_dir_renames ?c) = 1"
    by simp
  from first h3 have c3: "codex_dir_renames (''Copy '' @ ''`templates`'' @ '' and `docs`.'')
        = codex_dir_renames ''Copy '' @ ''`assets`'' @ codex_dir_renames '' and `docs`.''"
    by blast
  from second h4 have c4: "codex_dir_renames (''Copy `templates` and '' @ ''`docs`'' @ ''.'')
        = codex_dir_renames ''Copy `templates` and '' @ ''`references`'' @ codex_dir_renames ''.''"
    by blast
  from c1 n1 c2 n2 c3 c4 show ?thesis
    by (intro conjI)
qed

end
